theory Spec2Isabelle
  imports Complex_Main "HOL-Library.Product_Lexorder" "HOL-Library.AList"
begin

section \<open>Python values, errors and sequence primitives\<close>

text \<open>
  The exceptions that the modelled code can raise. A function that may raise
  returns \<open>error + 'a\<close>, with \<open>Inl\<close> carrying the exception.
\<close>

datatype error =
    ValueError
  | IndexError
  | KeyError
  | TypeError
  | AttributeError
  | AssertionError
  | UnboundLocalError
  | InvalidPreprocessSteps
  | DoesNotExist
  | MultipleObjectsReturned

text \<open>
  \<open>a[i]\<close> on a Python list: a negative index counts from the end, an index out
  of range raises \<open>IndexError\<close>.
\<close>

definition py_get :: "'a list \<Rightarrow> int \<Rightarrow> error + 'a" where
  "py_get a i =
     (let n = int (length a); j = (if i < 0 then n + i else i)
      in if 0 \<le> j \<and> j < n then Inr (a ! nat j) else Inl IndexError)"

text \<open>
  \<open>a[i:j]\<close> on a Python list or string: both bounds are first normalised
  (negative bounds count from the end, then everything is clamped to
  \<open>[0, len(a)]\<close>); the slice is empty when the bounds cross.
\<close>

definition py_bound :: "nat \<Rightarrow> int \<Rightarrow> nat" where
  "py_bound n i = (if i < 0 then nat (max 0 (int n + i)) else min (nat i) n)"

definition py_slice :: "'a list \<Rightarrow> int \<Rightarrow> int \<Rightarrow> 'a list" where
  "py_slice a i j = drop (py_bound (length a) i) (take (py_bound (length a) j) a)"

text \<open>\<open>a[i:]\<close>, the slice with the upper bound left out.\<close>

definition py_slice_from :: "'a list \<Rightarrow> int \<Rightarrow> 'a list" where
  "py_slice_from a i = drop (py_bound (length a) i) a"

section \<open>Interval-offset lookup (models.py, \<open>_interval_offsets\<close>)\<close>

text \<open>
  The first loop narrows \<open>[lo, hi)\<close> until it finds an index whose key lies in
  \<open>[xl, xr)\<close> (the \<open>break\<close>) or the range is empty. The variable \<open>mid\<close> is
  unbound until the body has run once, hence the \<open>nat option\<close>.
\<close>

function reduce_range ::
  "'a list \<Rightarrow> ('a \<Rightarrow> 'k::linorder) \<Rightarrow> 'k \<Rightarrow> 'k \<Rightarrow> nat \<Rightarrow> nat \<Rightarrow> nat option
     \<Rightarrow> error + (nat \<times> nat \<times> nat option)" where
  "reduce_range a key xl xr lo hi mid =
     (if lo < hi then
        (case py_get a (int ((lo + hi) div 2)) of
           Inl e \<Rightarrow> Inl e
         | Inr x \<Rightarrow>
             if xl \<le> key x \<and> xr \<le> key x then
               reduce_range a key xl xr lo ((lo + hi) div 2) (Some ((lo + hi) div 2))
             else if key x < xl \<and> key x < xr then
               reduce_range a key xl xr ((lo + hi) div 2 + 1) hi (Some ((lo + hi) div 2))
             else Inr (lo, hi, Some ((lo + hi) div 2)))
      else Inr (lo, hi, mid))"
  by pat_completeness auto
termination
  by (relation "measure (\<lambda>(a, key, xl, xr, lo, hi, mid). hi - lo)") auto

declare reduce_range.simps [simp del]

text \<open>The second loop: the left bisection point in \<open>[llo, lhi]\<close>.\<close>

function bisect_left ::
  "'a list \<Rightarrow> ('a \<Rightarrow> 'k::linorder) \<Rightarrow> 'k \<Rightarrow> nat \<Rightarrow> nat \<Rightarrow> error + nat" where
  "bisect_left a key xl llo lhi =
     (if llo < lhi then
        (case py_get a (int ((llo + lhi) div 2)) of
           Inl e \<Rightarrow> Inl e
         | Inr x \<Rightarrow>
             if key x < xl then bisect_left a key xl ((llo + lhi) div 2 + 1) lhi
             else bisect_left a key xl llo ((llo + lhi) div 2))
      else Inr llo)"
  by pat_completeness auto
termination
  by (relation "measure (\<lambda>(a, key, xl, llo, lhi). lhi - llo)") auto

declare bisect_left.simps [simp del]

text \<open>The third loop: the right bisection point in \<open>[rlo, rhi]\<close>.\<close>

function bisect_right ::
  "'a list \<Rightarrow> ('a \<Rightarrow> 'k::linorder) \<Rightarrow> 'k \<Rightarrow> nat \<Rightarrow> nat \<Rightarrow> error + nat" where
  "bisect_right a key xr rlo rhi =
     (if rlo < rhi then
        (case py_get a (int ((rlo + rhi) div 2)) of
           Inl e \<Rightarrow> Inl e
         | Inr x \<Rightarrow>
             if xr \<le> key x then bisect_right a key xr rlo ((rlo + rhi) div 2)
             else bisect_right a key xr ((rlo + rhi) div 2 + 1) rhi)
      else Inr rlo)"
  by pat_completeness auto
termination
  by (relation "measure (\<lambda>(a, key, xr, rlo, rhi). rhi - rlo)") auto

declare bisect_right.simps [simp del]

text \<open>
  The two sanity checks before the \<open>return\<close>; \<open>a[llo - 1]\<close> and \<open>a[rlo]\<close> are
  Python index reads.
\<close>

definition left_check :: "'a list \<Rightarrow> ('a \<Rightarrow> 'k::linorder) \<Rightarrow> 'k \<Rightarrow> nat \<Rightarrow> nat \<Rightarrow> error option" where
  "left_check a key xl lo llo =
     (if lo = llo then None
      else case py_get a (int llo - 1) of
             Inl e \<Rightarrow> Some e
           | Inr x \<Rightarrow> if key x < xl then None else Some AssertionError)"

definition right_check :: "'a list \<Rightarrow> ('a \<Rightarrow> 'k::linorder) \<Rightarrow> 'k \<Rightarrow> nat \<Rightarrow> nat \<Rightarrow> error option" where
  "right_check a key xr hi rlo =
     (if hi = rlo then None
      else case py_get a (int rlo) of
             Inl e \<Rightarrow> Some e
           | Inr x \<Rightarrow> if xr \<le> key x then None else Some AssertionError)"

text \<open>
  The body after the early returns. When the first loop never runs (\<open>hi < lo\<close>)
  the name \<open>mid\<close> is unbound at \<open>llo, lhi = lo, mid\<close>.
\<close>

definition split_range ::
  "'a list \<Rightarrow> ('a \<Rightarrow> 'k::linorder) \<Rightarrow> 'k \<Rightarrow> 'k \<Rightarrow> nat \<Rightarrow> nat \<Rightarrow> error + (int \<times> int)" where
  "split_range a key xl xr lo0 hi0 =
     (case reduce_range a key xl xr lo0 hi0 None of
        Inl e \<Rightarrow> Inl e
      | Inr (lo, hi, None) \<Rightarrow> Inl UnboundLocalError
      | Inr (lo, hi, Some mid) \<Rightarrow>
          (case bisect_left a key xl lo mid of
             Inl e \<Rightarrow> Inl e
           | Inr llo \<Rightarrow>
               (case bisect_right a key xr mid hi of
                  Inl e \<Rightarrow> Inl e
                | Inr rlo \<Rightarrow>
                    (case left_check a key xl lo llo of
                       Some e \<Rightarrow> Inl e
                     | None \<Rightarrow>
                         (case right_check a key xr hi rlo of
                            Some e \<Rightarrow> Inl e
                          | None \<Rightarrow> Inr (int llo, int rlo))))))"

text \<open>
  \<open>_interval_offsets(a, xl, xr, lo=0, hi=None, key=None)\<close>. The default key is
  the identity and is passed explicitly here; \<open>hi = None\<close> stands for
  \<open>len(a)\<close>.
\<close>

definition interval_offsets ::
  "'a list \<Rightarrow> 'k::linorder \<Rightarrow> 'k \<Rightarrow> int \<Rightarrow> int option \<Rightarrow> ('a \<Rightarrow> 'k) \<Rightarrow> error + (int \<times> int)" where
  "interval_offsets a xl xr lo hi key =
     (let hi' = (case hi of None \<Rightarrow> int (length a) | Some h \<Rightarrow> h) in
      if lo < 0 then Inl ValueError
      else if xl > xr then Inl ValueError
      else if lo = hi' then Inr (lo, hi')
      else split_range a key xl xr (nat lo) (nat hi'))"

section \<open>Documents, entities and text segments (models.py)\<close>

text \<open>
  The mongoengine documents are records of the fields the code reads and
  writes. Field names carry the class as a prefix, because several classes
  share \<open>key\<close>, \<open>kind\<close>, \<open>offset\<close>, \<open>tokens\<close> and so on. A reference field
  holds the referenced value. The display-only fields of \<open>IEDocument\<close>
  (\<open>title\<close>, \<open>url\<close>, \<open>creation_date\<close>, \<open>metadata\<close>) are read by no function
  modelled here and are left out.
\<close>

datatype PreProcessSteps = tokenization | sentencer | tagging | ner | segmentation

record Entity =
  entity_key :: string
  entity_canonical_form :: string
  entity_kind :: string

record EntityOccurrence =
  occ_entity :: Entity
  occ_offset :: int
  occ_offset_end :: int
  occ_alias :: string

record EntityInSegment =
  eis_key :: string
  eis_canonical_form :: string
  eis_kind :: string
  eis_offset :: int
  eis_offset_end :: int
  eis_alias :: string

record IEDocument =
  doc_human_identifier :: string
  doc_text :: string
  doc_preprocess_metadata :: "PreProcessSteps list"
  doc_tokens :: "string list"
  doc_offsets :: "int list"
  doc_postags :: "string list"
  doc_sentences :: "int list"
  doc_entities :: "EntityOccurrence list"

record TextSegment =
  seg_document :: string
  seg_text :: string
  seg_offset :: int
  seg_tokens :: "string list"
  seg_postags :: "string list"
  seg_entities :: "EntityInSegment list"
  seg_sentences :: "int list"

definition is_entity :: "EntityInSegment \<Rightarrow> Entity \<Rightarrow> bool" where
  "is_entity occ e \<longleftrightarrow> eis_key occ = entity_key e \<and> eis_kind occ = entity_kind e"

subsection \<open>\<open>TextSegment.build\<close>\<close>

text \<open>
  The character position of a token offset: \<open>document.offsets[i]\<close> when
  \<open>i < len(document.offsets)\<close> (a Python index read, so a negative \<open>i\<close> counts
  from the end or raises), the length of the text otherwise.
\<close>

definition text_position :: "IEDocument \<Rightarrow> int \<Rightarrow> error + int" where
  "text_position document i =
     (if i < int (length (doc_offsets document)) then py_get (doc_offsets document) i
      else Inr (int (length (doc_text document))))"

definition rebase :: "int \<Rightarrow> EntityOccurrence \<Rightarrow> EntityInSegment" where
  "rebase token_offset occ =
     \<lparr>eis_key = entity_key (occ_entity occ),
      eis_canonical_form = entity_canonical_form (occ_entity occ),
      eis_kind = entity_kind (occ_entity occ),
      eis_offset = occ_offset occ - token_offset,
      eis_offset_end = occ_offset_end occ - token_offset,
      eis_alias = occ_alias occ\<rparr>"

text \<open>
  The \<open>for o in document.entities[l:r]\<close> loop, with its assertion on every
  occurrence.
\<close>

fun build_entities :: "int \<Rightarrow> int \<Rightarrow> EntityOccurrence list \<Rightarrow> error + EntityInSegment list" where
  "build_entities token_offset token_offset_end [] = Inr []"
| "build_entities token_offset token_offset_end (occ # occs) =
     (if token_offset \<le> occ_offset occ \<and> occ_offset occ < token_offset_end then
        (case build_entities token_offset token_offset_end occs of
           Inl e \<Rightarrow> Inl e
         | Inr entities \<Rightarrow> Inr (rebase token_offset occ # entities))
      else Inl AssertionError)"

definition build :: "IEDocument \<Rightarrow> int \<Rightarrow> int \<Rightarrow> error + TextSegment" where
  "build document token_offset token_offset_end =
     (case text_position document token_offset of
        Inl e \<Rightarrow> Inl e
      | Inr text_start \<Rightarrow>
     (case text_position document token_offset_end of
        Inl e \<Rightarrow> Inl e
      | Inr text_end \<Rightarrow>
     (case interval_offsets (doc_entities document) token_offset token_offset_end 0 None
             occ_offset of
        Inl e \<Rightarrow> Inl e
      | Inr (l, r) \<Rightarrow>
     (case build_entities token_offset token_offset_end (py_slice (doc_entities document) l r) of
        Inl e \<Rightarrow> Inl e
      | Inr entities \<Rightarrow>
     (case interval_offsets (doc_sentences document) token_offset token_offset_end 0 None
             (\<lambda>x. x) of
        Inl e \<Rightarrow> Inl e
      | Inr (sl, sr) \<Rightarrow>
          Inr \<lparr>seg_document = doc_human_identifier document,
               seg_text = py_slice (doc_text document) text_start text_end,
               seg_offset = token_offset,
               seg_tokens = py_slice (doc_tokens document) token_offset token_offset_end,
               seg_postags = py_slice (doc_postags document) token_offset token_offset_end,
               seg_entities = entities,
               seg_sentences =
                 map (\<lambda>x. x - token_offset) (py_slice (doc_sentences document) sl sr)\<rparr>)))))"

definition entity_occurrence_pairs :: "TextSegment \<Rightarrow> Entity \<Rightarrow> Entity \<Rightarrow> (nat \<times> nat) list" where
  "entity_occurrence_pairs seg a b =
     (let left = [i. (i, occ) \<leftarrow> enumerate 0 (seg_entities seg), is_entity occ a];
          right = [i. (i, occ) \<leftarrow> enumerate 0 (seg_entities seg), is_entity occ b]
      in [(l, r). l \<leftarrow> left, r \<leftarrow> right, l \<noteq> r])"

definition kind_occurrence_pairs :: "TextSegment \<Rightarrow> string \<Rightarrow> string \<Rightarrow> (nat \<times> nat) list" where
  "kind_occurrence_pairs seg lkind rkind =
     (let left = [i. (i, occ) \<leftarrow> enumerate 0 (seg_entities seg), eis_kind occ = lkind];
          right = [i. (i, occ) \<leftarrow> enumerate 0 (seg_entities seg), eis_kind occ = rkind]
      in [(l, r). l \<leftarrow> left, r \<leftarrow> right, l \<noteq> r])"

subsection \<open>\<open>IEDocument.build_contextual_segments\<close>\<close>

text \<open>
  The inner \<open>while middle.offset - left.offset_end >= d\<close> loop. It answers
  \<open>None\<close> for the \<open>return\<close> (``we're done''), \<open>Some i\<close> for the index of the left
  entity of a close pair. The tuple assignment \<open>left, middle = self.entities[i:i + 2]\<close>
  raises \<open>ValueError\<close> when the slice has fewer than two elements.
\<close>

function find_close :: "EntityOccurrence list \<Rightarrow> int \<Rightarrow> nat \<Rightarrow> error + nat option" where
  "find_close es d i =
     (if i + 1 < length es then
        (if d \<le> occ_offset (es ! (i + 1)) - occ_offset_end (es ! i) then
           (if i + 1 + 1 = length es then Inr None else find_close es d (i + 1))
         else Inr (Some i))
      else Inl ValueError)"
  by pat_completeness auto
termination
  by (relation "measure (\<lambda>(es, d, i). length es - i)") auto

declare find_close.simps [simp del]

text \<open>
  The two boundary corrections. \<open>j\<close> runs down from \<open>i\<close> to \<open>-1\<close> in the first
  and up from \<open>i\<close> to \<open>L\<close> in the second.
\<close>

function widen_start :: "EntityOccurrence list \<Rightarrow> int \<Rightarrow> int \<Rightarrow> error + int" where
  "widen_start es j start =
     (if 0 \<le> j then
        (case py_get es j of
           Inl e \<Rightarrow> Inl e
         | Inr occ \<Rightarrow>
             if start < occ_offset_end occ then widen_start es (j - 1) (min start (occ_offset occ))
             else Inr start)
      else Inr start)"
  by pat_completeness auto
termination
  by (relation "measure (\<lambda>(es, j, start). nat (j + 1))") auto

declare widen_start.simps [simp del]

function widen_end :: "EntityOccurrence list \<Rightarrow> nat \<Rightarrow> int \<Rightarrow> error + int" where
  "widen_end es j end =
     (if j < length es then
        (case py_get es (int j) of
           Inl e \<Rightarrow> Inl e
         | Inr occ \<Rightarrow>
             if occ_offset occ < end then widen_end es (j + 1) (max end (occ_offset_end occ))
             else Inr end)
      else Inr end)"
  by pat_completeness auto
termination
  by (relation "measure (\<lambda>(es, j, end). length es - j)") auto

declare widen_end.simps [simp del]

text \<open>
  The candidate window around the close pair at \<open>i\<close>: the one-step extension to
  a third entity, the initial bounds and the two corrections.
\<close>

definition candidate_window :: "IEDocument \<Rightarrow> int \<Rightarrow> nat \<Rightarrow> error + (int \<times> int)" where
  "candidate_window doc d i =
     (let es = doc_entities doc;
          left = es ! i;
          middle = es ! (i + 1);
          right = (if i + 2 < length es \<and> occ_offset (es ! (i + 2)) - occ_offset_end middle < d
                   then es ! (i + 2) else middle);
          start = max 0 (occ_offset left - d);
          end = min (occ_offset_end right + d) (int (length (doc_tokens doc)))
      in case widen_start es (int i) start of
           Inl e \<Rightarrow> Inl e
         | Inr start' \<Rightarrow>
             (case widen_end es i end of
                Inl e \<Rightarrow> Inl e
              | Inr end' \<Rightarrow> Inr (start', end')))"

lemma find_close_bounds:
  "find_close es d i = Inr (Some k) \<Longrightarrow> i \<le> k \<and> k + 1 < length es"
proof (induction es d i rule: find_close.induct)
  case (1 es d i)
  show ?case
  proof (cases "i + 1 < length es \<and> d \<le> occ_offset (es ! (i + 1)) - occ_offset_end (es ! i)
                 \<and> i + 1 + 1 \<noteq> length es")
    case True
    then have "find_close es d i = find_close es d (i + 1)"
      by (subst find_close.simps) simp
    with "1.prems" "1.IH" True show ?thesis by simp
  next
    case False
    with "1.prems" show ?thesis
      by (subst (asm) find_close.simps) (auto split: if_splits)
  qed
qed

text \<open>
  The outer loop. \<open>saved\<close> collects the segments on which \<open>s.save()\<close> has been
  called, in order; an exception ends the loop and keeps what was saved before.
  \<open>lstart\<close>, \<open>lend\<close> are the bounds of the previous candidate window.
\<close>

function contextual_loop ::
  "IEDocument \<Rightarrow> int \<Rightarrow> nat \<Rightarrow> int \<Rightarrow> int \<Rightarrow> TextSegment list
     \<Rightarrow> TextSegment list \<times> error option" where
  "contextual_loop doc d i lstart lend saved =
     (if i + 1 < length (doc_entities doc) then
        (case find_close (doc_entities doc) d i of
           Inl e \<Rightarrow> (saved, Some e)
         | Inr None \<Rightarrow> (saved, None)
         | Inr (Some k) \<Rightarrow>
             (case candidate_window doc d k of
                Inl e \<Rightarrow> (saved, Some e)
              | Inr (start, end) \<Rightarrow>
                  if \<not> (end = lend \<and> lstart \<le> start) then
                    (case build doc start end of
                       Inl e \<Rightarrow> (saved, Some e)
                     | Inr s \<Rightarrow> contextual_loop doc d (k + 1) start end (saved @ [s]))
                  else contextual_loop doc d (k + 1) start end saved))
      else (saved, None))"
  by pat_completeness auto
termination
  by (relation "measure (\<lambda>(doc, d, i, lstart, lend, saved). length (doc_entities doc) - i)")
     (auto dest: find_close_bounds)

declare contextual_loop.simps [simp del]

definition build_contextual_segments :: "IEDocument \<Rightarrow> int \<Rightarrow> TextSegment list \<times> error option" where
  "build_contextual_segments doc d = contextual_loop doc d 0 (- 1) (- 1) []"

text \<open>The token range \<open>[start, end)\<close> that a saved segment covers.\<close>

definition token_range :: "TextSegment \<Rightarrow> int \<times> int" where
  "token_range s = (seg_offset s, seg_offset s + int (length (seg_tokens s)))"

subsection \<open>\<open>IEDocument.set_preprocess_result\<close>\<close>

text \<open>
  An element of a sentencer result: an \<open>int\<close> or any other Python object (the
  code tests \<open>isinstance(x, int)\<close>). A call pairs the step with the list that is
  passed for it; \<open>NotAStep\<close> is a \<open>step\<close> argument that is no \<open>PreProcessSteps\<close>
  member. The lists of the other steps are taken with the element type of the
  field they are stored in.
\<close>

datatype pyval = IntVal int | OtherVal

datatype preprocess_call =
    NotAStep
  | Tokenization "(int \<times> string) list"
  | Sentencer "pyval list"
  | Tagging "string list"
  | Ner "EntityOccurrence list"
  | Segmentation

fun step_of :: "preprocess_call \<Rightarrow> PreProcessSteps option" where
  "step_of NotAStep = None"
| "step_of (Tokenization r) = Some tokenization"
| "step_of (Sentencer r) = Some sentencer"
| "step_of (Tagging r) = Some tagging"
| "step_of (Ner r) = Some ner"
| "step_of Segmentation = Some segmentation"

fun is_int :: "pyval \<Rightarrow> bool" where
  "is_int (IntVal n) = True"
| "is_int OtherVal = False"

fun int_of :: "pyval \<Rightarrow> int" where
  "int_of (IntVal n) = n"
| "int_of OtherVal = 0"

text \<open>
  The checks of the sentencer branch, in the order of the code. \<open>result[0]\<close> and
  \<open>result[-1]\<close> are Python index reads.
\<close>

definition check_sentencer :: "IEDocument \<Rightarrow> pyval list \<Rightarrow> error option" where
  "check_sentencer doc result =
     (if \<not> list_all is_int result then Some ValueError
      else if sort (map int_of result) \<noteq> map int_of result then Some ValueError
      else if length (remdups (map int_of result)) < length result then Some ValueError
      else case py_get (map int_of result) 0 of
             Inl e \<Rightarrow> Some e
           | Inr first \<Rightarrow>
               if first \<noteq> 0 then Some ValueError
               else case py_get (map int_of result) (- 1) of
                      Inl e \<Rightarrow> Some e
                    | Inr lst \<Rightarrow>
                        if lst \<noteq> int (length (doc_tokens doc)) then Some ValueError
                        else None)"

definition check_tagging :: "IEDocument \<Rightarrow> string list \<Rightarrow> error option" where
  "check_tagging doc result =
     (if length result \<noteq> length (doc_tokens doc) then Some ValueError else None)"

text \<open>
  \<open>flag_preprocess_done\<close>: the step becomes a key of \<open>preprocess_metadata\<close>. The
  value stored under it, the time of the call, is not modelled.
\<close>

definition flag_preprocess_done :: "IEDocument \<Rightarrow> PreProcessSteps \<Rightarrow> IEDocument" where
  "flag_preprocess_done doc step =
     doc\<lparr>doc_preprocess_metadata :=
           (if step \<in> set (doc_preprocess_metadata doc) then doc_preprocess_metadata doc
            else doc_preprocess_metadata doc @ [step])\<rparr>"

definition was_preprocess_done :: "IEDocument \<Rightarrow> PreProcessSteps \<Rightarrow> bool" where
  "was_preprocess_done doc step \<longleftrightarrow> step \<in> set (doc_preprocess_metadata doc)"

text \<open>
  \<open>set_preprocess_result\<close> returns the document as it is after the call and the
  exception raised, if any. \<open>iepy.utils.unzip\<close> is not part of the sources at
  hand and is a parameter: it splits the tokenization result into the offsets
  and the tokens, or raises.
\<close>

definition set_preprocess_result ::
  "((int \<times> string) list \<Rightarrow> error + (int list \<times> string list)) \<Rightarrow> IEDocument \<Rightarrow> preprocess_call
     \<Rightarrow> IEDocument \<times> error option" where
  "set_preprocess_result unzip doc call =
     (case call of
        NotAStep \<Rightarrow> (doc, Some InvalidPreprocessSteps)
      | Sentencer result \<Rightarrow>
          (case check_sentencer doc result of
             Some e \<Rightarrow> (doc, Some e)
           | None \<Rightarrow>
               (flag_preprocess_done (doc\<lparr>doc_sentences := map int_of result\<rparr>) sentencer, None))
      | Tagging result \<Rightarrow>
          (case check_tagging doc result of
             Some e \<Rightarrow> (doc, Some e)
           | None \<Rightarrow> (flag_preprocess_done (doc\<lparr>doc_postags := result\<rparr>) tagging, None))
      | Segmentation \<Rightarrow> (doc, Some KeyError)
      | Tokenization result \<Rightarrow>
          (case unzip result of
             Inl e \<Rightarrow> (doc, Some e)
           | Inr (offs, toks) \<Rightarrow>
               (flag_preprocess_done (doc\<lparr>doc_offsets := offs, doc_tokens := toks\<rparr>) tokenization,
                None))
      | Ner result \<Rightarrow> (flag_preprocess_done (doc\<lparr>doc_entities := result\<rparr>) ner, None))"

section \<open>Facts, evidence and knowledge (core.py)\<close>

record Fact =
  fact_e1 :: Entity
  fact_relation :: string
  fact_e2 :: Entity

record Evidence =
  ev_fact :: Fact
  ev_segment :: "TextSegment option"
  ev_o1 :: "nat option"
  ev_o2 :: "nat option"

text \<open>
  The invariants listed in the docstring of \<open>Evidence\<close>: the segment and the two
  indices are left out together, and an index that is set points to an
  occurrence of the segment with the kind and key of the entity of the fact.
\<close>

definition occurrence_matches :: "TextSegment option \<Rightarrow> nat option \<Rightarrow> Entity \<Rightarrow> bool" where
  "occurrence_matches seg oi e =
     (case oi of
        None \<Rightarrow> True
      | Some i \<Rightarrow>
          (case seg of
             None \<Rightarrow> False
           | Some s \<Rightarrow>
               i < length (seg_entities s) \<and>
               entity_kind e = eis_kind (seg_entities s ! i) \<and>
               entity_key e = eis_key (seg_entities s ! i)))"

definition evidence_invariants :: "Evidence \<Rightarrow> bool" where
  "evidence_invariants e \<longleftrightarrow>
     ((ev_segment e = None) = (ev_o1 e = None)) \<and>
     ((ev_segment e = None) = (ev_o2 e = None)) \<and>
     occurrence_matches (ev_segment e) (ev_o1 e) (fact_e1 (ev_fact e)) \<and>
     occurrence_matches (ev_segment e) (ev_o2 e) (fact_e2 (ev_fact e))"

text \<open>
  A score is a number or \<open>None\<close>; Python's floats are taken as reals. A \<open>dict\<close>
  is the list of its items in insertion order, with distinct keys:
  \<open>AList.update k v d\<close> is \<open>d[k] = v\<close> (a present key keeps its place) and
  \<open>map_of d k\<close> is the lookup.
\<close>

type_synonym score = "real option"

type_synonym Knowledge = "(Evidence \<times> score) list"

definition dict_update :: "('k \<times> 'v) list \<Rightarrow> ('k \<times> 'v) list \<Rightarrow> ('k \<times> 'v) list" where
  "dict_update d items = foldl (\<lambda>acc (k, v). AList.update k v acc) d items"

definition dict_of :: "('k \<times> 'v) list \<Rightarrow> ('k \<times> 'v) list" where
  "dict_of items = dict_update [] items"

definition certainty :: "score \<Rightarrow> real" where
  "certainty p = (case p of None \<Rightarrow> 1 / 2 | Some x \<Rightarrow> 1 / 2 + \<bar>x - 1 / 2\<bar>)"

text \<open>
  \<open>Knowledge.by_certainty\<close>. The sort key of an item \<open>(e, s)\<close> is the pair of
  \<open>certainty(self[e]) if self[e] is not None else 0\<close> and \<open>e\<close>, where \<open>self[e]\<close>
  is \<open>s\<close> for an item of the dict itself; pairs compare lexicographically.
  \<open>sorted(..., reverse=True)\<close> reverses, sorts stably in ascending order and
  reverses again. The order on the evidence is the one Python gives to the
  tuples; any linear order can take its place here.
\<close>

definition key_funct :: "'e \<times> score \<Rightarrow> real \<times> 'e" where
  "key_funct e_s = ((if snd e_s \<noteq> None then certainty (snd e_s) else 0), fst e_s)"

definition by_certainty :: "('e::linorder \<times> score) list \<Rightarrow> ('e \<times> score) list" where
  "by_certainty k = rev (sort_key key_funct (rev k))"

definition per_relation :: "Knowledge \<Rightarrow> (string \<times> Knowledge) list" where
  "per_relation k =
     foldl (\<lambda>result (e, s).
              AList.update (fact_relation (ev_fact e))
                (AList.update e s
                   (case map_of result (fact_relation (ev_fact e)) of
                      None \<Rightarrow> []
                    | Some sub \<Rightarrow> sub))
                result)
       [] k"

section \<open>The store (db.py)\<close>

text \<open>
  The database holds the saved text segments and the entities. The queries of
  \<open>TextSegmentManager\<close> filter the segments; \<open>get_entity\<close> is mongoengine's
  \<open>objects.get\<close>, which raises unless exactly one object matches.
\<close>

record database =
  db_segments :: "TextSegment list"
  db_entities :: "Entity list"

definition segments_with_both_entities :: "database \<Rightarrow> Entity \<Rightarrow> Entity \<Rightarrow> TextSegment list" where
  "segments_with_both_entities db entity_a entity_b =
     filter (\<lambda>s. (\<exists>occ \<in> set (seg_entities s). eis_key occ = entity_key entity_a) \<and>
                  (\<exists>occ \<in> set (seg_entities s). eis_key occ = entity_key entity_b))
       (db_segments db)"

definition segments_with_both_kinds :: "database \<Rightarrow> string \<Rightarrow> string \<Rightarrow> TextSegment list" where
  "segments_with_both_kinds db kind_a kind_b =
     (if kind_a \<noteq> kind_b then
        filter (\<lambda>s. (\<exists>occ \<in> set (seg_entities s). eis_kind occ = kind_a) \<and>
                     (\<exists>occ \<in> set (seg_entities s). eis_kind occ = kind_b))
          (db_segments db)
      else
        filter (\<lambda>s. 2 \<le> length (filter (\<lambda>occ. eis_kind occ = kind_a) (seg_entities s)))
          (db_segments db))"

definition get_entity :: "database \<Rightarrow> string \<Rightarrow> string \<Rightarrow> error + Entity" where
  "get_entity db kind literal =
     (case filter (\<lambda>e. entity_kind e = kind \<and> entity_key e = literal) (db_entities db) of
        [] \<Rightarrow> Inl DoesNotExist
      | [e] \<Rightarrow> Inr e
      | _ \<Rightarrow> Inl MultipleObjectsReturned)"

section \<open>The bootstrapped pipeline (core.py, \<open>BootstrappedIEPipeline\<close>)\<close>

text \<open>
  A trained extractor gives, for a list of evidence, the probabilities of the
  positive class. \<open>FactExtractorFactory\<close>, which trains one from labelled
  evidence, belongs to \<open>iepy.fact_extractor\<close> and is a parameter \<open>factory\<close> of
  the functions that use it. \<open>step_position\<close> is the index in \<open>self.steps\<close> of the
  element that \<open>self.step_iterator\<close> yields next.
\<close>

type_synonym extractor = "Evidence list \<Rightarrow> real list"

record BootstrappedIEPipeline =
  db_con :: database
  knowledge :: Knowledge
  evidence_threshold :: real
  fact_threshold :: real
  questions :: Knowledge
  answers :: Knowledge
  step_position :: nat
  relations :: "(string \<times> (string \<times> string)) list"

text \<open>
  The loop of \<open>__init__\<close> over the keys of the knowledge that builds the table
  from relation labels to pairs of entity kinds.
\<close>

fun build_relations ::
  "Evidence list \<Rightarrow> (string \<times> (string \<times> string)) list
     \<Rightarrow> error + (string \<times> (string \<times> string)) list" where
  "build_relations [] rels = Inr rels"
| "build_relations (e # es) rels =
     (let t1 = entity_kind (fact_e1 (ev_fact e));
          t2 = entity_kind (fact_e2 (ev_fact e))
      in if map_of rels (fact_relation (ev_fact e)) \<noteq> None \<and>
            Some (t1, t2) \<noteq> map_of rels (fact_relation (ev_fact e))
         then Inl ValueError
         else build_relations es (AList.update (fact_relation (ev_fact e)) (t1, t2) rels))"

definition seed_knowledge :: "Fact list \<Rightarrow> Knowledge" where
  "seed_knowledge seed_facts =
     dict_of (map (\<lambda>f. (\<lparr>ev_fact = f, ev_segment = None, ev_o1 = None, ev_o2 = None\<rparr>, Some 1))
                seed_facts)"

definition init :: "database \<Rightarrow> Fact list \<Rightarrow> error + BootstrappedIEPipeline" where
  "init db_connector seed_facts =
     (case build_relations (map fst (seed_knowledge seed_facts)) [] of
        Inl e \<Rightarrow> Inl e
      | Inr rels \<Rightarrow>
          Inr \<lparr>db_con = db_connector,
               knowledge = seed_knowledge seed_facts,
               evidence_threshold = 99 / 100,
               fact_threshold = 99 / 100,
               questions = [],
               answers = [],
               step_position = 0,
               relations = rels\<rparr>)"

subsection \<open>The steps\<close>

definition generalize_knowledge :: "BootstrappedIEPipeline \<Rightarrow> Knowledge \<Rightarrow> Knowledge" where
  "generalize_knowledge p evidence =
     dict_of (filter (\<lambda>x. ev_fact (fst x) \<in> set (map (\<lambda>ent. ev_fact (fst ent)) (knowledge p)))
                evidence)"

definition generate_questions :: "BootstrappedIEPipeline \<Rightarrow> Knowledge \<Rightarrow> BootstrappedIEPipeline" where
  "generate_questions p evidence =
     p\<lparr>questions := dict_of (filter (\<lambda>(e, s). map_of (answers p) e = None) evidence)\<rparr>"

text \<open>
  \<open>filter_evidence\<close>: the answers, updated with the questions that have a strong
  prediction. The labels are the numbers 0 and 1 (\<open>True == 1\<close> in Python, and
  \<open>add_answer\<close> stores \<open>int(answer)\<close>). Comparing a \<open>None\<close> score with a number
  raises \<open>TypeError\<close>.
\<close>

fun label_questions :: "real \<Rightarrow> Knowledge \<Rightarrow> Knowledge \<Rightarrow> Knowledge \<Rightarrow> error + Knowledge" where
  "label_questions thr ans evidence [] = Inr evidence"
| "label_questions thr ans evidence ((e, sc) # qs) =
     (if thr < certainty sc \<and> map_of ans e = None then
        (case sc of
           None \<Rightarrow> Inl TypeError
         | Some x \<Rightarrow>
             label_questions thr ans (AList.update e (Some (of_bool (1 / 2 < x))) evidence) qs)
      else label_questions thr ans evidence qs)"

definition filter_evidence :: "BootstrappedIEPipeline \<Rightarrow> error + Knowledge" where
  "filter_evidence p =
     label_questions (evidence_threshold p) (answers p) (dict_of (answers p)) (questions p)"

text \<open>
  \<open>learn_fact_extractors\<close>: one extractor for every relation whose evidence has
  both labels.
\<close>

fun train_relations ::
  "(Knowledge \<Rightarrow> extractor) \<Rightarrow> (string \<times> Knowledge) list \<Rightarrow> (string \<times> extractor) list
     \<Rightarrow> error + (string \<times> extractor) list" where
  "train_relations factory [] classifiers = Inr classifiers"
| "train_relations factory ((rel, k) # rest) classifiers =
     (if Some 1 \<notin> set (map snd k) \<or> Some 0 \<notin> set (map snd k) then
        train_relations factory rest classifiers
      else if length (remdups (map snd k)) \<noteq> 2 then Inl AssertionError
      else train_relations factory rest (AList.update rel (factory k) classifiers))"

definition learn_fact_extractors ::
  "(Knowledge \<Rightarrow> extractor) \<Rightarrow> Knowledge \<Rightarrow> error + (string \<times> extractor) list" where
  "learn_fact_extractors factory evidence = train_relations factory (per_relation evidence) []"

text \<open>
  \<open>extract_facts\<close>. Its argument is what the previous step returned, a dict of
  extractors, or what the caller of \<open>do_iteration\<close> passed when it is the first
  step to run: \<open>None\<close> or a \<open>Knowledge\<close>. \<open>r in extractors\<close> raises \<open>TypeError\<close>
  on \<open>None\<close> and is false on a \<open>Knowledge\<close>, whose keys are no strings.
\<close>

datatype extractors_arg =
    NoneArg
  | KnowledgeArg Knowledge
  | ExtractorsArg "(string \<times> extractor) list"

fun pair_evidences ::
  "database \<Rightarrow> string \<Rightarrow> TextSegment \<Rightarrow> (nat \<times> nat) list \<Rightarrow> error + Evidence list" where
  "pair_evidences db r seg [] = Inr []"
| "pair_evidences db r seg ((i1, i2) # ps) =
     (case py_get (seg_entities seg) (int i1) of
        Inl e \<Rightarrow> Inl e
      | Inr occ1 \<Rightarrow>
     (case get_entity db (eis_kind occ1) (eis_key occ1) of
        Inl e \<Rightarrow> Inl e
      | Inr e1 \<Rightarrow>
     (case py_get (seg_entities seg) (int i2) of
        Inl e \<Rightarrow> Inl e
      | Inr occ2 \<Rightarrow>
     (case get_entity db (eis_kind occ2) (eis_key occ2) of
        Inl e \<Rightarrow> Inl e
      | Inr e2 \<Rightarrow>
     (case pair_evidences db r seg ps of
        Inl e \<Rightarrow> Inl e
      | Inr evs \<Rightarrow>
          Inr (\<lparr>ev_fact = \<lparr>fact_e1 = e1, fact_relation = r, fact_e2 = e2\<rparr>,
                ev_segment = Some seg, ev_o1 = Some i1, ev_o2 = Some i2\<rparr> # evs))))))"

fun segment_evidences ::
  "database \<Rightarrow> string \<Rightarrow> string \<Rightarrow> string \<Rightarrow> TextSegment list \<Rightarrow> error + Evidence list" where
  "segment_evidences db r lkind rkind [] = Inr []"
| "segment_evidences db r lkind rkind (seg # segs) =
     (case pair_evidences db r seg (kind_occurrence_pairs seg lkind rkind) of
        Inl e \<Rightarrow> Inl e
      | Inr evs \<Rightarrow>
          (case segment_evidences db r lkind rkind segs of
             Inl e \<Rightarrow> Inl e
           | Inr rest \<Rightarrow> Inr (evs @ rest)))"

definition scores_for :: "extractors_arg \<Rightarrow> string \<Rightarrow> Evidence list \<Rightarrow> error + score list" where
  "scores_for extractors r evidence =
     (case extractors of
        NoneArg \<Rightarrow> Inl TypeError
      | KnowledgeArg k \<Rightarrow> Inr (map (\<lambda>_. Some (1 / 2)) evidence)
      | ExtractorsArg cls \<Rightarrow>
          (case map_of cls r of
             Some predict \<Rightarrow> Inr (map Some (predict evidence))
           | None \<Rightarrow> Inr (map (\<lambda>_. Some (1 / 2)) evidence)))"

fun extract_relations ::
  "database \<Rightarrow> extractors_arg \<Rightarrow> (string \<times> (string \<times> string)) list \<Rightarrow> Knowledge
     \<Rightarrow> error + Knowledge" where
  "extract_relations db extractors [] result = Inr result"
| "extract_relations db extractors ((r, (lkind, rkind)) # rels) result =
     (case segment_evidences db r lkind rkind (segments_with_both_kinds db lkind rkind) of
        Inl e \<Rightarrow> Inl e
      | Inr evidence \<Rightarrow>
          (case scores_for extractors r evidence of
             Inl e \<Rightarrow> Inl e
           | Inr ps \<Rightarrow>
               extract_relations db extractors rels (dict_update result (zip evidence ps))))"

definition extract_facts :: "BootstrappedIEPipeline \<Rightarrow> extractors_arg \<Rightarrow> error + Knowledge" where
  "extract_facts p extractors = extract_relations (db_con p) extractors (relations p) []"

text \<open>
  \<open>filter_facts\<close>: \<open>self.knowledge.update\<close> consumes the generator item by item,
  so an exception in the comparison \<open>s > self.fact_threshold\<close> leaves the items
  merged before it in place. The function returns the pipeline after the call
  and either the exception or the returned \<open>facts\<close>.
\<close>

fun merge_facts :: "real \<Rightarrow> Knowledge \<Rightarrow> Knowledge \<Rightarrow> Knowledge \<times> error option" where
  "merge_facts thr kn [] = (kn, None)"
| "merge_facts thr kn ((e, sc) # fs) =
     (case sc of
        None \<Rightarrow> (kn, Some TypeError)
      | Some x \<Rightarrow>
          if thr < x then merge_facts thr (AList.update e sc kn) fs
          else merge_facts thr kn fs)"

definition filter_facts ::
  "BootstrappedIEPipeline \<Rightarrow> Knowledge \<Rightarrow> BootstrappedIEPipeline \<times> (error + Knowledge)" where
  "filter_facts p facts =
     (case merge_facts (fact_threshold p) (knowledge p) facts of
        (kn, Some e) \<Rightarrow> (p\<lparr>knowledge := kn\<rparr>, Inl e)
      | (kn, None) \<Rightarrow> (p\<lparr>knowledge := kn\<rparr>, Inr facts))"

subsection \<open>\<open>do_iteration\<close> and the user API\<close>

text \<open>
  \<open>do_iteration(data)\<close> runs the steps from the position of the iterator up to
  the pause, which is the element \<open>None\<close> at index 2 of the cycle. The first
  step receives \<open>data\<close>, the argument of the caller (a \<open>Knowledge\<close> from \<open>start\<close>,
  \<open>None\<close> from \<open>force_process\<close>); every later step receives what its predecessor
  returned. A step called on \<open>None\<close> fails with \<open>AttributeError\<close> at
  \<open>None.items()\<close> or \<open>None.per_relation()\<close>. An exception leaves the iterator
  just after the step that raised. The functions below are the runs from each
  position, the last step of the cycle first; each returns the pipeline after
  the run and the exception, if any.
\<close>

definition run_generate_questions ::
  "BootstrappedIEPipeline \<Rightarrow> Knowledge option \<Rightarrow> BootstrappedIEPipeline \<times> error option" where
  "run_generate_questions p data =
     (case data of
        None \<Rightarrow> (p\<lparr>step_position := 2\<rparr>, Some AttributeError)
      | Some evidence \<Rightarrow> ((generate_questions p evidence)\<lparr>step_position := 3\<rparr>, None))"

definition run_generalize_knowledge ::
  "BootstrappedIEPipeline \<Rightarrow> Knowledge option \<Rightarrow> BootstrappedIEPipeline \<times> error option" where
  "run_generalize_knowledge p data =
     (case data of
        None \<Rightarrow> (p\<lparr>step_position := 1\<rparr>, Some AttributeError)
      | Some evidence \<Rightarrow> run_generate_questions p (Some (generalize_knowledge p evidence)))"

definition run_filter_facts ::
  "BootstrappedIEPipeline \<Rightarrow> Knowledge option \<Rightarrow> BootstrappedIEPipeline \<times> error option" where
  "run_filter_facts p data =
     (case data of
        None \<Rightarrow> (p\<lparr>step_position := 0\<rparr>, Some AttributeError)
      | Some facts \<Rightarrow>
          (case filter_facts p facts of
             (p', Inl e) \<Rightarrow> (p'\<lparr>step_position := 0\<rparr>, Some e)
           | (p', Inr facts') \<Rightarrow> run_generalize_knowledge p' (Some facts')))"

definition run_extract_facts ::
  "BootstrappedIEPipeline \<Rightarrow> extractors_arg \<Rightarrow> BootstrappedIEPipeline \<times> error option" where
  "run_extract_facts p extractors =
     (case extract_facts p extractors of
        Inl e \<Rightarrow> (p\<lparr>step_position := 6\<rparr>, Some e)
      | Inr facts \<Rightarrow> run_filter_facts p (Some facts))"

definition run_learn_fact_extractors ::
  "(Knowledge \<Rightarrow> extractor) \<Rightarrow> BootstrappedIEPipeline \<Rightarrow> Knowledge option
     \<Rightarrow> BootstrappedIEPipeline \<times> error option" where
  "run_learn_fact_extractors factory p data =
     (case data of
        None \<Rightarrow> (p\<lparr>step_position := 5\<rparr>, Some AttributeError)
      | Some evidence \<Rightarrow>
          (case learn_fact_extractors factory evidence of
             Inl e \<Rightarrow> (p\<lparr>step_position := 5\<rparr>, Some e)
           | Inr classifiers \<Rightarrow> run_extract_facts p (ExtractorsArg classifiers)))"

definition run_filter_evidence ::
  "(Knowledge \<Rightarrow> extractor) \<Rightarrow> BootstrappedIEPipeline \<Rightarrow> BootstrappedIEPipeline \<times> error option" where
  "run_filter_evidence factory p =
     (case filter_evidence p of
        Inl e \<Rightarrow> (p\<lparr>step_position := 4\<rparr>, Some e)
      | Inr evidence \<Rightarrow> run_learn_fact_extractors factory p (Some evidence))"

definition do_iteration ::
  "(Knowledge \<Rightarrow> extractor) \<Rightarrow> BootstrappedIEPipeline \<Rightarrow> Knowledge option
     \<Rightarrow> BootstrappedIEPipeline \<times> error option" where
  "do_iteration factory p data =
     (if step_position p = 0 then run_generalize_knowledge p data
      else if step_position p = 1 then run_generate_questions p data
      else if step_position p = 2 then (p\<lparr>step_position := 3\<rparr>, None)
      else if step_position p = 3 then run_filter_evidence factory p
      else if step_position p = 4 then run_learn_fact_extractors factory p data
      else if step_position p = 5 then
        run_extract_facts p (case data of None \<Rightarrow> NoneArg | Some k \<Rightarrow> KnowledgeArg k)
      else run_filter_facts p data)"

definition start_evidences :: "BootstrappedIEPipeline \<Rightarrow> Knowledge" where
  "start_evidences p =
     dict_of
       [(\<lparr>ev_fact = ev_fact (fst item), ev_segment = Some seg, ev_o1 = Some i1, ev_o2 = Some i2\<rparr>,
         Some (1 / 2)).
          item \<leftarrow> knowledge p,
          seg \<leftarrow> segments_with_both_entities (db_con p)
                   (fact_e1 (ev_fact (fst item))) (fact_e2 (ev_fact (fst item))),
          (i1, i2) \<leftarrow> entity_occurrence_pairs seg
                        (fact_e1 (ev_fact (fst item))) (fact_e2 (ev_fact (fst item)))]"

definition start ::
  "(Knowledge \<Rightarrow> extractor) \<Rightarrow> BootstrappedIEPipeline \<Rightarrow> BootstrappedIEPipeline \<times> error option" where
  "start factory p = do_iteration factory p (Some (start_evidences p))"

definition add_answer :: "BootstrappedIEPipeline \<Rightarrow> Evidence \<Rightarrow> bool \<Rightarrow> BootstrappedIEPipeline" where
  "add_answer p evidence answer =
     p\<lparr>answers := AList.update evidence (Some (of_bool answer)) (answers p)\<rparr>"

definition force_process ::
  "(Knowledge \<Rightarrow> extractor) \<Rightarrow> BootstrappedIEPipeline \<Rightarrow> BootstrappedIEPipeline \<times> error option" where
  "force_process factory p = do_iteration factory p None"

definition known_facts :: "BootstrappedIEPipeline \<Rightarrow> Knowledge" where
  "known_facts p = knowledge p"

text \<open>
  The pipelines that the user API can produce from a database and a factory:
  a constructed pipeline, and any pipeline after a call of \<open>start\<close>,
  \<open>add_answer\<close> or \<open>force_process\<close>, whether the call raised or not.
\<close>

inductive reachable :: "(Knowledge \<Rightarrow> extractor) \<Rightarrow> BootstrappedIEPipeline \<Rightarrow> bool"
  for factory :: "Knowledge \<Rightarrow> extractor" where
  constructed: "init db seed_facts = Inr p \<Longrightarrow> reachable factory p"
| started: "reachable factory p \<Longrightarrow> reachable factory (fst (start factory p))"
| answered: "reachable factory p \<Longrightarrow> reachable factory (add_answer p evidence answer)"
| processed: "reachable factory p \<Longrightarrow> reachable factory (fst (force_process factory p))"

section \<open>Predicates and sample data for the statements below\<close>

text \<open>
  A sentencer result as the specification wants it: only ints, strictly
  increasing, starting at 0 and ending at the token count.
\<close>

definition sentencer_result_ok :: "IEDocument \<Rightarrow> pyval list \<Rightarrow> bool" where
  "sentencer_result_ok doc result \<longleftrightarrow>
     (\<forall>x \<in> set result. is_int x) \<and>
     sorted_wrt (<) (map int_of result) \<and>
     result \<noteq> [] \<and>
     hd (map int_of result) = 0 \<and>
     last (map int_of result) = int (length (doc_tokens doc))"

definition two_token_doc :: IEDocument where
  "two_token_doc =
     \<lparr>doc_human_identifier = ''d'', doc_text = ''a b'', doc_preprocess_metadata = [tokenization],
      doc_tokens = [''a'', ''b''], doc_offsets = [0, 2], doc_postags = [], doc_sentences = [],
      doc_entities = []\<rparr>"

text \<open>An \<open>unzip\<close> that splits a list of pairs into its two component lists.\<close>

definition split_pairs :: "(int \<times> string) list \<Rightarrow> error + (int list \<times> string list)" where
  "split_pairs result = Inr (map fst result, map snd result)"

text \<open>The pair of entity kinds that a fact connects.\<close>

definition kind_pair :: "Fact \<Rightarrow> string \<times> string" where
  "kind_pair f = (entity_kind (fact_e1 f), entity_kind (fact_e2 f))"

text \<open>
  An item of \<open>facts\<close> that \<open>filter_facts\<close> accepts: its score is a number above
  the threshold.
\<close>

definition accepted :: "real \<Rightarrow> Knowledge \<Rightarrow> Evidence \<Rightarrow> bool" where
  "accepted thr facts e \<longleftrightarrow> (case map_of facts e of Some (Some x) \<Rightarrow> thr < x | _ \<Rightarrow> False)"

text \<open>The relation label and the pair of kinds of the fact of an evidence.\<close>

definition ev_relation :: "Evidence \<Rightarrow> string" where
  "ev_relation e = fact_relation (ev_fact e)"

definition ev_kinds :: "Evidence \<Rightarrow> string \<times> string" where
  "ev_kinds e = kind_pair (ev_fact e)"

text \<open>Sample entities and facts.\<close>

definition person_x :: Entity where
  "person_x = \<lparr>entity_key = ''PersonX'', entity_canonical_form = ''Person X'', entity_kind = ''person''\<rparr>"

definition org_y :: Entity where
  "org_y = \<lparr>entity_key = ''OrgY'', entity_canonical_form = ''Org Y'', entity_kind = ''organization''\<rparr>"

definition works_for :: Fact where
  "works_for = \<lparr>fact_e1 = person_x, fact_relation = ''works_for'', fact_e2 = org_y\<rparr>"

definition works_for_reversed :: Fact where
  "works_for_reversed = \<lparr>fact_e1 = org_y, fact_relation = ''works_for'', fact_e2 = person_x\<rparr>"

definition empty_db :: database where
  "empty_db = \<lparr>db_segments = [], db_entities = []\<rparr>"

text \<open>A pipeline with one seed fact, and two scored evidences of other facts.\<close>

definition seeded_pipeline :: BootstrappedIEPipeline where
  "seeded_pipeline =
     \<lparr>db_con = empty_db, knowledge = seed_knowledge [works_for],
      evidence_threshold = 99 / 100, fact_threshold = 99 / 100, questions = [], answers = [],
      step_position = 0, relations = [(''works_for'', (''person'', ''organization''))]\<rparr>"

definition strong_evidence :: Evidence where
  "strong_evidence =
     \<lparr>ev_fact = \<lparr>fact_e1 = person_x, fact_relation = ''works_for'', fact_e2 = person_x\<rparr>,
      ev_segment = None, ev_o1 = None, ev_o2 = None\<rparr>"

definition weak_evidence :: Evidence where
  "weak_evidence =
     \<lparr>ev_fact = \<lparr>fact_e1 = org_y, fact_relation = ''works_for'', fact_e2 = org_y\<rparr>,
      ev_segment = None, ev_o1 = None, ev_o2 = None\<rparr>"

text \<open>
  A document of eight tokens whose first entity occurrence spans all of them
  and contains the two others (occurrences sorted by start offset).
\<close>

definition nested_doc :: IEDocument where
  "nested_doc =
     \<lparr>doc_human_identifier = ''d'', doc_text = ''a b c d e f g h'',
      doc_preprocess_metadata = [tokenization, sentencer, tagging, ner],
      doc_tokens = [''a'', ''b'', ''c'', ''d'', ''e'', ''f'', ''g'', ''h''],
      doc_offsets = [0, 2, 4, 6, 8, 10, 12, 14],
      doc_postags = [''X'', ''X'', ''X'', ''X'', ''X'', ''X'', ''X'', ''X''],
      doc_sentences = [0, 8],
      doc_entities =
        [\<lparr>occ_entity = org_y, occ_offset = 0, occ_offset_end = 8, occ_alias = ''a b c d e f g h''\<rparr>,
         \<lparr>occ_entity = person_x, occ_offset = 1, occ_offset_end = 2, occ_alias = ''b''\<rparr>,
         \<lparr>occ_entity = person_x, occ_offset = 3, occ_offset_end = 4, occ_alias = ''d''\<rparr>]\<rparr>"

text \<open>
  A document of fourteen tokens with four one-token entity occurrences, two
  tokens apart, none overlapping another.
\<close>

definition four_entity_doc :: IEDocument where
  "four_entity_doc =
     \<lparr>doc_human_identifier = ''d'', doc_text = ''a b c d e f g h i j k l m n'',
      doc_preprocess_metadata = [tokenization, sentencer, tagging, ner],
      doc_tokens = [''a'', ''b'', ''c'', ''d'', ''e'', ''f'', ''g'', ''h'', ''i'', ''j'', ''k'', ''l'', ''m'', ''n''],
      doc_offsets = [0, 2, 4, 6, 8, 10, 12, 14, 16, 18, 20, 22, 24, 26],
      doc_postags = [''X'', ''X'', ''X'', ''X'', ''X'', ''X'', ''X'', ''X'', ''X'', ''X'', ''X'', ''X'', ''X'', ''X''],
      doc_sentences = [0, 14],
      doc_entities =
        [\<lparr>occ_entity = person_x, occ_offset = 0, occ_offset_end = 1, occ_alias = ''a''\<rparr>,
         \<lparr>occ_entity = org_y, occ_offset = 2, occ_offset_end = 3, occ_alias = ''c''\<rparr>,
         \<lparr>occ_entity = person_x, occ_offset = 4, occ_offset_end = 5, occ_alias = ''e''\<rparr>,
         \<lparr>occ_entity = org_y, occ_offset = 6, occ_offset_end = 7, occ_alias = ''g''\<rparr>]\<rparr>"

text \<open>An occurrence starts inside the token range \<open>[a, b)\<close>.\<close>

definition starts_in :: "int \<Rightarrow> int \<Rightarrow> EntityOccurrence \<Rightarrow> bool" where
  "starts_in a b occ \<longleftrightarrow> a \<le> occ_offset occ \<and> occ_offset occ < b"

text \<open>
  A document of six tokens with three entity occurrences; the second starts in
  the token range \<open>[2, 4)\<close> and ends after it.
\<close>

definition overhang_doc :: IEDocument where
  "overhang_doc =
     \<lparr>doc_human_identifier = ''d'', doc_text = ''a b c d e f'',
      doc_preprocess_metadata = [tokenization, sentencer, tagging, ner],
      doc_tokens = [''a'', ''b'', ''c'', ''d'', ''e'', ''f''],
      doc_offsets = [0, 2, 4, 6, 8, 10],
      doc_postags = [''X'', ''X'', ''X'', ''X'', ''X'', ''X''],
      doc_sentences = [0, 6],
      doc_entities =
        [\<lparr>occ_entity = person_x, occ_offset = 1, occ_offset_end = 3, occ_alias = ''b c''\<rparr>,
         \<lparr>occ_entity = org_y, occ_offset = 3, occ_offset_end = 5, occ_alias = ''d e''\<rparr>,
         \<lparr>occ_entity = person_x, occ_offset = 5, occ_offset_end = 6, occ_alias = ''f''\<rparr>]\<rparr>"

text \<open>
  Every key of a knowledge satisfies the invariants of \<open>Evidence\<close>; an evidence is
  located when its segment and both indices are set.
\<close>

definition knowledge_ok :: "Knowledge \<Rightarrow> bool" where
  "knowledge_ok k \<longleftrightarrow> (\<forall>e \<in> fst ` set k. evidence_invariants e)"

definition located :: "Evidence \<Rightarrow> bool" where
  "located e \<longleftrightarrow> ev_segment e \<noteq> None \<and> ev_o1 e \<noteq> None \<and> ev_o2 e \<noteq> None"

definition unlocated :: "Evidence \<Rightarrow> bool" where
  "unlocated e \<longleftrightarrow> ev_segment e = None \<and> ev_o1 e = None \<and> ev_o2 e = None"

text \<open>
  The invariant of the pipeline: the keys of the knowledge and of the pending
  questions satisfy the invariants of \<open>Evidence\<close>. \<open>data_ok\<close> says the same of
  the argument of \<open>do_iteration\<close>.
\<close>

definition pipeline_ok :: "BootstrappedIEPipeline \<Rightarrow> bool" where
  "pipeline_ok p \<longleftrightarrow> knowledge_ok (knowledge p) \<and> knowledge_ok (questions p)"

definition data_ok :: "Knowledge option \<Rightarrow> bool" where
  "data_ok data \<longleftrightarrow> (case data of None \<Rightarrow> True | Some k \<Rightarrow> knowledge_ok k)"

text \<open>
  A database with one segment that mentions both entities of the sample fact, a
  factory whose extractors give every evidence the probability 1, the pipeline
  constructed from the sample fact, and the evidence that \<open>start\<close> finds for it.
\<close>

definition sample_segment :: TextSegment where
  "sample_segment =
     \<lparr>seg_document = ''d'', seg_text = ''X joined Y'', seg_offset = 0,
      seg_tokens = [''X'', ''joined'', ''Y''], seg_postags = [''N'', ''V'', ''N''],
      seg_entities =
        [\<lparr>eis_key = ''PersonX'', eis_canonical_form = ''Person X'', eis_kind = ''person'',
          eis_offset = 0, eis_offset_end = 1, eis_alias = ''X''\<rparr>,
         \<lparr>eis_key = ''OrgY'', eis_canonical_form = ''Org Y'', eis_kind = ''organization'',
          eis_offset = 2, eis_offset_end = 3, eis_alias = ''Y''\<rparr>],
      seg_sentences = [0]\<rparr>"

definition sample_db :: database where
  "sample_db = \<lparr>db_segments = [sample_segment], db_entities = [person_x, org_y]\<rparr>"

definition sample_factory :: "Knowledge \<Rightarrow> extractor" where
  "sample_factory k = (\<lambda>evidence. map (\<lambda>_. 1) evidence)"

definition sample_pipeline :: BootstrappedIEPipeline where
  "sample_pipeline =
     \<lparr>db_con = sample_db, knowledge = seed_knowledge [works_for],
      evidence_threshold = 99 / 100, fact_threshold = 99 / 100, questions = [], answers = [],
      step_position = 0, relations = [(''works_for'', (''person'', ''organization''))]\<rparr>"

definition sample_question :: Evidence where
  "sample_question =
     \<lparr>ev_fact = works_for, ev_segment = Some sample_segment, ev_o1 = Some 0, ev_o2 = Some 1\<rparr>"

section \<open>Properties of the interval-offset lookup\<close>

lemma py_get_nat: "m < length a \<Longrightarrow> py_get a (int m) = Inr (a ! m)"
  by (simp add: py_get_def Let_def)

lemma sorted_key_le:
  "sorted (map key a) \<Longrightarrow> i \<le> j \<Longrightarrow> j < length a \<Longrightarrow> key (a ! i) \<le> key (a ! j)"
  using sorted_nth_mono [of "map key a" i j] by simp

lemma reduce_range_spec:
  fixes key :: "'a \<Rightarrow> 'k::linorder"
  shows "sorted (map key a) \<Longrightarrow> xl \<le> xr \<Longrightarrow> lo \<le> hi \<Longrightarrow> hi \<le> length a \<Longrightarrow>
     (\<forall>i<lo. key (a ! i) < xl) \<Longrightarrow>
     (\<forall>i. hi \<le> i \<and> i < length a \<longrightarrow> xr \<le> key (a ! i)) \<Longrightarrow>
     (lo = hi \<longrightarrow> (\<exists>k. mid = Some k \<and> (k = lo \<or> k + 1 = lo))) \<Longrightarrow>
     \<exists>lo' hi' k. reduce_range a key xl xr lo hi mid = Inr (lo', hi', Some k) \<and>
        lo' \<le> hi' \<and> hi' \<le> length a \<and>
        (\<forall>i<lo'. key (a ! i) < xl) \<and>
        (\<forall>i. hi' \<le> i \<and> i < length a \<longrightarrow> xr \<le> key (a ! i)) \<and>
        ((lo' \<le> k \<and> k < hi' \<and> xl \<le> key (a ! k) \<and> key (a ! k) < xr) \<or>
         (lo' = hi' \<and> (k = lo' \<or> k + 1 = lo')))"
proof (induction a key xl xr lo hi mid rule: reduce_range.induct)
  case (1 a key xl xr lo hi mid)
  note srt = "1.prems"(1) and le = "1.prems"(2) and prems = "1.prems"(3-)
  show ?case
  proof (cases "lo < hi")
    case False
    with prems show ?thesis by (subst reduce_range.simps) auto
  next
    case True
    define m where "m = (lo + hi) div 2"
    have m: "lo \<le> m" "m < hi" "m < length a" using True prems(2) by (auto simp: m_def)
    have get: "py_get a (int m) = Inr (a ! m)" using m by (simp add: py_get_nat)
    consider (hi) "xl \<le> key (a ! m) \<and> xr \<le> key (a ! m)"
      | (lo) "\<not> xl \<le> key (a ! m)" "key (a ! m) < xl \<and> key (a ! m) < xr"
      | (brk) "\<not> xr \<le> key (a ! m)" "\<not> key (a ! m) < xl"
      using le by (meson not_le_imp_less order_trans less_le_trans leD)
    then show ?thesis
    proof cases
      case hi
      have eq: "reduce_range a key xl xr lo hi mid = reduce_range a key xl xr lo m (Some m)"
        using True get hi by (subst reduce_range.simps) (simp add: m_def [symmetric])
      have hi': "\<forall>i. m \<le> i \<and> i < length a \<longrightarrow> xr \<le> key (a ! i)"
      proof (intro allI impI)
        fix i assume "m \<le> i \<and> i < length a"
        then have "key (a ! m) \<le> key (a ! i)" using sorted_key_le [OF srt, of m i] by simp
        with hi show "xr \<le> key (a ! i)" by (meson order_trans)
      qed
      have "\<exists>lo' hi' k. reduce_range a key xl xr lo m (Some m) = Inr (lo', hi', Some k) \<and>
        lo' \<le> hi' \<and> hi' \<le> length a \<and>
        (\<forall>i<lo'. key (a ! i) < xl) \<and>
        (\<forall>i. hi' \<le> i \<and> i < length a \<longrightarrow> xr \<le> key (a ! i)) \<and>
        ((lo' \<le> k \<and> k < hi' \<and> xl \<le> key (a ! k) \<and> key (a ! k) < xr) \<or>
         (lo' = hi' \<and> (k = lo' \<or> k + 1 = lo')))"
        using "1.IH"(1) [OF True get [unfolded m_def], folded m_def, OF hi srt le] m prems(3) hi'
        by auto
      with eq show ?thesis by simp
    next
      case lo
      have eq: "reduce_range a key xl xr lo hi mid = reduce_range a key xl xr (m + 1) hi (Some m)"
        using True get lo by (subst reduce_range.simps) (simp add: m_def [symmetric])
      have lo': "\<forall>i<m + 1. key (a ! i) < xl"
      proof (intro allI impI)
        fix i assume "i < m + 1"
        then have "key (a ! i) \<le> key (a ! m)" using sorted_key_le [OF srt, of i m] m by simp
        with lo show "key (a ! i) < xl" by simp
      qed
      have "\<exists>lo' hi' k. reduce_range a key xl xr (m + 1) hi (Some m) = Inr (lo', hi', Some k) \<and>
        lo' \<le> hi' \<and> hi' \<le> length a \<and>
        (\<forall>i<lo'. key (a ! i) < xl) \<and>
        (\<forall>i. hi' \<le> i \<and> i < length a \<longrightarrow> xr \<le> key (a ! i)) \<and>
        ((lo' \<le> k \<and> k < hi' \<and> xl \<le> key (a ! k) \<and> key (a ! k) < xr) \<or>
         (lo' = hi' \<and> (k = lo' \<or> k + 1 = lo')))"
        using "1.IH"(2) [OF True get [unfolded m_def], folded m_def, OF _ lo(2) srt le] m prems(2,4) lo'
        by auto
      with eq show ?thesis by simp
    next
      case brk
      have eq: "reduce_range a key xl xr lo hi mid = Inr (lo, hi, Some m)"
        using True get brk by (subst reduce_range.simps) (simp add: m_def [symmetric])
      have "xl \<le> key (a ! m)" "key (a ! m) < xr" using brk by auto
      with eq m prems show ?thesis by auto
    qed
  qed
qed

lemma bisect_left_spec:
  fixes key :: "'a \<Rightarrow> 'k::linorder"
  shows "sorted (map key a) \<Longrightarrow> llo \<le> lhi \<Longrightarrow> lhi \<le> length a \<Longrightarrow>
     (\<forall>i<llo. key (a ! i) < xl) \<Longrightarrow>
     (\<forall>i. lhi \<le> i \<and> i < length a \<longrightarrow> xl \<le> key (a ! i)) \<Longrightarrow>
     \<exists>l. bisect_left a key xl llo lhi = Inr l \<and> llo \<le> l \<and> l \<le> lhi \<and>
        (\<forall>i<l. key (a ! i) < xl) \<and>
        (\<forall>i. l \<le> i \<and> i < length a \<longrightarrow> xl \<le> key (a ! i))"
proof (induction a key xl llo lhi rule: bisect_left.induct)
  case (1 a key xl llo lhi)
  note srt = "1.prems"(1) and prems = "1.prems"(2-)
  show ?case
  proof (cases "llo < lhi")
    case False
    with prems show ?thesis by (subst bisect_left.simps) auto
  next
    case True
    define m where "m = (llo + lhi) div 2"
    have m: "llo \<le> m" "m < lhi" "m < length a" using True prems(2) by (auto simp: m_def)
    have get: "py_get a (int m) = Inr (a ! m)" using m by (simp add: py_get_nat)
    show ?thesis
    proof (cases "key (a ! m) < xl")
      case lt: True
      have eq: "bisect_left a key xl llo lhi = bisect_left a key xl (m + 1) lhi"
        using True get lt by (subst bisect_left.simps) (simp add: m_def [symmetric])
      have lo': "\<forall>i<m + 1. key (a ! i) < xl"
      proof (intro allI impI)
        fix i assume "i < m + 1"
        then have "key (a ! i) \<le> key (a ! m)" using sorted_key_le [OF srt, of i m] m by simp
        with lt show "key (a ! i) < xl" by simp
      qed
      have "\<exists>l. bisect_left a key xl (m + 1) lhi = Inr l \<and> m + 1 \<le> l \<and> l \<le> lhi \<and>
        (\<forall>i<l. key (a ! i) < xl) \<and>
        (\<forall>i. l \<le> i \<and> i < length a \<longrightarrow> xl \<le> key (a ! i))"
        using "1.IH"(1) [OF True get [unfolded m_def], folded m_def, OF lt srt] m prems(2,4) lo'
        by auto
      with eq m show ?thesis by auto
    next
      case ge: False
      have eq: "bisect_left a key xl llo lhi = bisect_left a key xl llo m"
        using True get ge by (subst bisect_left.simps) (simp add: m_def [symmetric])
      have hi': "\<forall>i. m \<le> i \<and> i < length a \<longrightarrow> xl \<le> key (a ! i)"
      proof (intro allI impI)
        fix i assume "m \<le> i \<and> i < length a"
        then have "key (a ! m) \<le> key (a ! i)" using sorted_key_le [OF srt, of m i] by simp
        with ge show "xl \<le> key (a ! i)" by (meson order_trans not_le_imp_less leD leI)
      qed
      have "\<exists>l. bisect_left a key xl llo m = Inr l \<and> llo \<le> l \<and> l \<le> m \<and>
        (\<forall>i<l. key (a ! i) < xl) \<and>
        (\<forall>i. l \<le> i \<and> i < length a \<longrightarrow> xl \<le> key (a ! i))"
        using "1.IH"(2) [OF True get [unfolded m_def], folded m_def, OF ge srt] m prems(3) hi'
        by auto
      with eq m show ?thesis by auto
    qed
  qed
qed

lemma bisect_right_spec:
  fixes key :: "'a \<Rightarrow> 'k::linorder"
  shows "sorted (map key a) \<Longrightarrow> rlo \<le> rhi \<Longrightarrow> rhi \<le> length a \<Longrightarrow>
     (\<forall>i<rlo. key (a ! i) < xr) \<Longrightarrow>
     (\<forall>i. rhi \<le> i \<and> i < length a \<longrightarrow> xr \<le> key (a ! i)) \<Longrightarrow>
     \<exists>r. bisect_right a key xr rlo rhi = Inr r \<and> rlo \<le> r \<and> r \<le> rhi \<and>
        (\<forall>i<r. key (a ! i) < xr) \<and>
        (\<forall>i. r \<le> i \<and> i < length a \<longrightarrow> xr \<le> key (a ! i))"
proof (induction a key xr rlo rhi rule: bisect_right.induct)
  case (1 a key xr rlo rhi)
  note srt = "1.prems"(1) and prems = "1.prems"(2-)
  show ?case
  proof (cases "rlo < rhi")
    case False
    with prems show ?thesis by (subst bisect_right.simps) auto
  next
    case True
    define m where "m = (rlo + rhi) div 2"
    have m: "rlo \<le> m" "m < rhi" "m < length a" using True prems(2) by (auto simp: m_def)
    have get: "py_get a (int m) = Inr (a ! m)" using m by (simp add: py_get_nat)
    show ?thesis
    proof (cases "xr \<le> key (a ! m)")
      case ge: True
      have eq: "bisect_right a key xr rlo rhi = bisect_right a key xr rlo m"
        using True get ge by (subst bisect_right.simps) (simp add: m_def [symmetric])
      have hi': "\<forall>i. m \<le> i \<and> i < length a \<longrightarrow> xr \<le> key (a ! i)"
      proof (intro allI impI)
        fix i assume "m \<le> i \<and> i < length a"
        then have "key (a ! m) \<le> key (a ! i)" using sorted_key_le [OF srt, of m i] by simp
        with ge show "xr \<le> key (a ! i)" by (meson order_trans)
      qed
      have "\<exists>r. bisect_right a key xr rlo m = Inr r \<and> rlo \<le> r \<and> r \<le> m \<and>
        (\<forall>i<r. key (a ! i) < xr) \<and>
        (\<forall>i. r \<le> i \<and> i < length a \<longrightarrow> xr \<le> key (a ! i))"
        using "1.IH"(1) [OF True get [unfolded m_def], folded m_def, OF ge srt] m prems(3) hi'
        by auto
      with eq m show ?thesis by auto
    next
      case lt: False
      have eq: "bisect_right a key xr rlo rhi = bisect_right a key xr (m + 1) rhi"
        using True get lt by (subst bisect_right.simps) (simp add: m_def [symmetric])
      have lo': "\<forall>i<m + 1. key (a ! i) < xr"
      proof (intro allI impI)
        fix i assume "i < m + 1"
        then have "key (a ! i) \<le> key (a ! m)" using sorted_key_le [OF srt, of i m] m by simp
        with lt show "key (a ! i) < xr" by simp
      qed
      have "\<exists>r. bisect_right a key xr (m + 1) rhi = Inr r \<and> m + 1 \<le> r \<and> r \<le> rhi \<and>
        (\<forall>i<r. key (a ! i) < xr) \<and>
        (\<forall>i. r \<le> i \<and> i < length a \<longrightarrow> xr \<le> key (a ! i))"
        using "1.IH"(2) [OF True get [unfolded m_def], folded m_def, OF lt srt] m prems(2,4) lo'
        by auto
      with eq m show ?thesis by auto
    qed
  qed
qed


lemma split_range_spec:
  fixes key :: "'a \<Rightarrow> 'k::linorder"
  assumes srt: "sorted (map key a)" and le: "xl \<le> xr" and ne: "0 < length a"
  shows "\<exists>l r. split_range a key xl xr 0 (length a) = Inr (int l, int r) \<and>
        l \<le> r \<and> r \<le> length a \<and>
        (\<forall>i<l. key (a ! i) < xl) \<and>
        (\<forall>i. l \<le> i \<and> i < length a \<longrightarrow> xl \<le> key (a ! i)) \<and>
        (\<forall>i<r. key (a ! i) < xr) \<and>
        (\<forall>i. r \<le> i \<and> i < length a \<longrightarrow> xr \<le> key (a ! i))"
proof -
  have "\<exists>lo' hi' k. reduce_range a key xl xr 0 (length a) None = Inr (lo', hi', Some k) \<and>
        lo' \<le> hi' \<and> hi' \<le> length a \<and>
        (\<forall>i<lo'. key (a ! i) < xl) \<and>
        (\<forall>i. hi' \<le> i \<and> i < length a \<longrightarrow> xr \<le> key (a ! i)) \<and>
        ((lo' \<le> k \<and> k < hi' \<and> xl \<le> key (a ! k) \<and> key (a ! k) < xr) \<or>
         (lo' = hi' \<and> (k = lo' \<or> k + 1 = lo')))"
    by (rule reduce_range_spec [OF srt le]) (use ne in auto)
  then obtain lo hi k where red: "reduce_range a key xl xr 0 (length a) None = Inr (lo, hi, Some k)"
    and lohi: "lo \<le> hi" "hi \<le> length a"
    and plo: "\<forall>i<lo. key (a ! i) < xl"
    and phi: "\<forall>i. hi \<le> i \<and> i < length a \<longrightarrow> xr \<le> key (a ! i)"
    and k: "(lo \<le> k \<and> k < hi \<and> xl \<le> key (a ! k) \<and> key (a ! k) < xr) \<or>
         (lo = hi \<and> (k = lo \<or> k + 1 = lo))"
    by blast
  have phi_l: "\<forall>i. hi \<le> i \<and> i < length a \<longrightarrow> xl \<le> key (a ! i)"
    using phi le by (meson order_trans)
  have plo_r: "\<forall>i<lo. key (a ! i) < xr"
    using plo le by (meson less_le_trans)
  \<comment> \<open>the left bisection\<close>
  have "\<exists>l. bisect_left a key xl lo k = Inr l \<and> lo \<le> l \<and> l \<le> hi \<and>
        (\<forall>i<l. key (a ! i) < xl) \<and>
        (\<forall>i. l \<le> i \<and> i < length a \<longrightarrow> xl \<le> key (a ! i))"
  proof (cases "lo \<le> k")
    case True
    have kh: "k \<le> hi" using k True by auto
    have "\<forall>i. k \<le> i \<and> i < length a \<longrightarrow> xl \<le> key (a ! i)"
    proof (intro allI impI)
      fix i assume i: "k \<le> i \<and> i < length a"
      show "xl \<le> key (a ! i)"
      proof (cases "hi \<le> i")
        case True with phi_l i show ?thesis by simp
      next
        case False
        with k i True have "xl \<le> key (a ! k)" by auto
        moreover have "key (a ! k) \<le> key (a ! i)" using sorted_key_le [OF srt, of k i] i by simp
        ultimately show ?thesis by (meson order_trans)
      qed
    qed
    with bisect_left_spec [OF srt True, of xl] kh lohi plo show ?thesis by auto
  next
    case False
    then have "bisect_left a key xl lo k = Inr lo" by (subst bisect_left.simps) simp
    with lohi plo phi_l False k show ?thesis by auto
  qed
  then obtain l where bl: "bisect_left a key xl lo k = Inr l" and l: "lo \<le> l" "l \<le> hi"
    and l1: "\<forall>i<l. key (a ! i) < xl"
    and l2: "\<forall>i. l \<le> i \<and> i < length a \<longrightarrow> xl \<le> key (a ! i)" by blast
  \<comment> \<open>the right bisection\<close>
  have kh: "k \<le> hi" using k lohi by auto
  have "\<forall>i<k. key (a ! i) < xr"
  proof (intro allI impI)
    fix i assume i: "i < k"
    show "key (a ! i) < xr"
    proof (cases "i < lo")
      case True with plo_r show ?thesis by simp
    next
      case False
      with k i have kk: "key (a ! k) < xr" "k < length a" using lohi by auto
      moreover have "key (a ! i) \<le> key (a ! k)" using sorted_key_le [OF srt, of i k] i kk by simp
      ultimately show ?thesis by (meson le_less_trans)
    qed
  qed
  with bisect_right_spec [OF srt kh, of xr] lohi phi
  obtain r where br: "bisect_right a key xr k hi = Inr r" and r: "k \<le> r" "r \<le> hi"
    and r1: "\<forall>i<r. key (a ! i) < xr"
    and r2: "\<forall>i. r \<le> i \<and> i < length a \<longrightarrow> xr \<le> key (a ! i)" by blast
  have lr: "l \<le> r"
  proof (rule ccontr)
    assume "\<not> l \<le> r"
    then have "r < l" by simp
    with l1 have "key (a ! r) < xl" by simp
    moreover have "xr \<le> key (a ! r)" using r2 \<open>r < l\<close> l lohi by simp
    ultimately show False using le by (meson leD le_less_trans less_le_trans)
  qed
  have lc: "left_check a key xl lo l = None"
  proof (cases "lo = l")
    case True then show ?thesis by (simp add: left_check_def)
  next
    case False
    with l have pos: "0 < l" "l - 1 < length a" using lohi by auto
    then have "py_get a (int l - 1) = Inr (a ! (l - 1))"
      using py_get_nat [of "l - 1" a] by (simp add: of_nat_diff)
    moreover have "key (a ! (l - 1)) < xl" using l1 pos by simp
    ultimately show ?thesis using False by (simp add: left_check_def)
  qed
  have rc: "right_check a key xr hi r = None"
  proof (cases "hi = r")
    case True then show ?thesis by (simp add: right_check_def)
  next
    case False
    with r lohi have "r < length a" by simp
    then have "py_get a (int r) = Inr (a ! r)" "xr \<le> key (a ! r)"
      using r2 by (simp_all add: py_get_nat)
    then show ?thesis using False by (simp add: right_check_def)
  qed
  have "split_range a key xl xr 0 (length a) = Inr (int l, int r)"
    by (simp add: split_range_def red bl br lc rc)
  with lr r lohi l1 l2 r1 r2 show ?thesis by auto
qed

lemma py_bound_nat [simp]: "py_bound n (int l) = min l n"
  by (simp add: py_bound_def)

lemma interval_offsets_nat:
  fixes key :: "'a \<Rightarrow> 'k::linorder"
  assumes srt: "sorted (map key a)" and le: "xl \<le> xr"
  shows "\<exists>l r. interval_offsets a xl xr 0 None key = Inr (int l, int r) \<and>
        l \<le> r \<and> r \<le> length a \<and>
        (\<forall>i<l. key (a ! i) < xl) \<and>
        (\<forall>i. l \<le> i \<and> i < length a \<longrightarrow> xl \<le> key (a ! i)) \<and>
        (\<forall>i<r. key (a ! i) < xr) \<and>
        (\<forall>i. r \<le> i \<and> i < length a \<longrightarrow> xr \<le> key (a ! i))"
proof (cases "a = []")
  case True
  then have "interval_offsets a xl xr 0 None key = Inr (int 0, int 0)"
    using le leD [OF le] by (simp add: interval_offsets_def)
  with True show ?thesis by auto
next
  case False
  then have "interval_offsets a xl xr 0 None key = split_range a key xl xr 0 (length a)"
    using le leD [OF le] by (simp add: interval_offsets_def Let_def)
  with split_range_spec [OF srt le] False show ?thesis by simp
qed

text \<open>
  Claim C2. For a list sorted non-decreasingly under the key and \<open>xl \<le> xr\<close>,
  \<open>_interval_offsets(a, xl, xr)\<close> returns a pair \<open>(l, r)\<close> such that every element
  of \<open>a[0:l]\<close> has a key below \<open>xl\<close>, every element of \<open>a[l:r]\<close> has a key in
  \<open>[xl, xr)\<close> and every element of \<open>a[r:]\<close> has a key of at least \<open>xr\<close>; when
  \<open>xl = xr\<close> the slice is empty (\<open>l = r\<close>); and on \<open>[1,3,3,5,8]\<close> with the query
  \<open>[3,5)\<close> the result is \<open>(1,3)\<close>.
\<close>

theorem interval_offsets_partition:
  fixes key :: "'a \<Rightarrow> 'k::linorder"
  shows "(sorted (map key a) \<and> xl \<le> xr \<longrightarrow>
     (\<exists>l r. interval_offsets a xl xr 0 None key = Inr (l, r) \<and>
        0 \<le> l \<and> l \<le> r \<and> r \<le> int (length a) \<and>
        (\<forall>v \<in> set (py_slice a 0 l). key v < xl) \<and>
        (\<forall>v \<in> set (py_slice a l r). xl \<le> key v \<and> key v < xr) \<and>
        (\<forall>v \<in> set (py_slice_from a r). xr \<le> key v) \<and>
        (xl = xr \<longrightarrow> l = r))) \<and>
    interval_offsets [1, 3, 3, 5, 8 :: int] 3 5 0 None (\<lambda>x. x) = Inr (1, 3)"
proof (intro conjI impI)
  assume "sorted (map key a) \<and> xl \<le> xr"
  then have srt: "sorted (map key a)" and le: "xl \<le> xr" by simp_all
  from interval_offsets_nat [OF srt le]
  obtain l r where res: "interval_offsets a xl xr 0 None key = Inr (int l, int r)"
    and lr: "l \<le> r" "r \<le> length a"
    and l1: "\<forall>i<l. key (a ! i) < xl"
    and l2: "\<forall>i. l \<le> i \<and> i < length a \<longrightarrow> xl \<le> key (a ! i)"
    and r1: "\<forall>i<r. key (a ! i) < xr"
    and r2: "\<forall>i. r \<le> i \<and> i < length a \<longrightarrow> xr \<le> key (a ! i)" by blast
  have a: "\<forall>v \<in> set (py_slice a 0 (int l)). key v < xl"
  proof
    fix v assume "v \<in> set (py_slice a 0 (int l))"
    then have "v \<in> set (take l a)" using lr by (simp add: py_slice_def py_bound_def)
    then obtain i where "i < l" "v = a ! i" using lr
      by (auto simp: in_set_conv_nth)
    with l1 show "key v < xl" by simp
  qed
  have b: "\<forall>v \<in> set (py_slice a (int l) (int r)). xl \<le> key v \<and> key v < xr"
  proof
    fix v assume "v \<in> set (py_slice a (int l) (int r))"
    then have "v \<in> set (drop l (take r a))" using lr by (simp add: py_slice_def)
    then obtain i where "i < r - l" "v = a ! (l + i)" using lr
      by (auto simp: in_set_conv_nth)
    with l2 r1 lr show "xl \<le> key v \<and> key v < xr" by simp
  qed
  have c: "\<forall>v \<in> set (py_slice_from a (int r)). xr \<le> key v"
  proof
    fix v assume "v \<in> set (py_slice_from a (int r))"
    then have "v \<in> set (drop r a)" using lr by (simp add: py_slice_from_def)
    then obtain i where "i < length a - r" "v = a ! (r + i)" using lr
      by (auto simp: in_set_conv_nth)
    with r2 show "xr \<le> key v" by simp
  qed
  have d: "xl = xr \<longrightarrow> int l = int r"
  proof
    assume eq: "xl = xr"
    show "int l = int r"
    proof (rule ccontr)
      assume "int l \<noteq> int r"
      with lr have "l < r" by simp
      with l2 r1 lr have "xl \<le> key (a ! l)" "key (a ! l) < xr" by simp_all
      with eq show False by simp
    qed
  qed
  from res lr a b c d
  show "\<exists>l r. interval_offsets a xl xr 0 None key = Inr (l, r) \<and>
        0 \<le> l \<and> l \<le> r \<and> r \<le> int (length a) \<and>
        (\<forall>v \<in> set (py_slice a 0 l). key v < xl) \<and>
        (\<forall>v \<in> set (py_slice a l r). xl \<le> key v \<and> key v < xr) \<and>
        (\<forall>v \<in> set (py_slice_from a r). xr \<le> key v) \<and>
        (xl = xr \<longrightarrow> l = r)"
    by (intro exI [of _ "int l"] exI [of _ "int r"]) simp
next
  show "interval_offsets [1, 3, 3, 5, 8 :: int] 3 5 0 None (\<lambda>x. x) = Inr (1, 3)"
    by (simp add: interval_offsets_def split_range_def reduce_range.simps bisect_left.simps
          bisect_right.simps left_check_def right_check_def py_get_def)
qed

theorem interval_offsets_partition_witness:
  "sorted (map (\<lambda>x. x) [1, 3, 3, 5, 8 :: int]) \<and> (3::int) \<le> 5 \<and>
   (\<exists>l r. interval_offsets [1, 3, 3, 5, 8 :: int] 3 5 0 None (\<lambda>x. x) = Inr (l, r) \<and>
        (\<forall>v \<in> set (py_slice [1, 3, 3, 5, 8 :: int] l r). 3 \<le> v \<and> v < 5))"
  using interval_offsets_partition [of "\<lambda>x. x" "[1, 3, 3, 5, 8 :: int]" 3 5] by auto

section \<open>Properties of \<open>set_preprocess_result\<close>\<close>

lemma py_get_first: "py_get xs 0 = (if xs = [] then Inl IndexError else Inr (hd xs))"
  by (cases xs) (simp_all add: py_get_def)

lemma py_get_last: "py_get xs (- 1) = (if xs = [] then Inl IndexError else Inr (last xs))"
proof (cases "xs = []")
  case True then show ?thesis by (simp add: py_get_def)
next
  case False
  then have "nat (int (length xs) - 1) = length xs - 1" "0 < length xs" by auto
  with False show ?thesis by (simp add: py_get_def last_conv_nth)
qed

lemma remdups_shorter: "length (remdups xs) < length xs \<longleftrightarrow> \<not> distinct xs"
proof -
  have "length (remdups xs) \<le> length xs" by (rule length_remdups_leq)
  moreover have "length (remdups xs) = length xs \<longleftrightarrow> distinct xs"
    by (simp add: length_remdups_eq remdups_id_iff_distinct)
  ultimately show ?thesis by linarith
qed

lemma remdups_map_shorter:
  "length (remdups (map f xs)) < length xs \<longleftrightarrow> \<not> distinct (map f xs)"
  using remdups_shorter [of "map f xs"] by simp

lemma sort_fixed: "sort xs = xs \<longleftrightarrow> sorted xs"
proof
  assume "sort xs = xs"
  then show "sorted xs" using sorted_sort [of xs] by simp
next
  assume "sorted xs"
  then show "sort xs = xs" by (rule sorted_sort_id)
qed

lemma check_sentencer_None:
  "check_sentencer doc result = None \<longleftrightarrow> sentencer_result_ok doc result"
  by (auto simp: check_sentencer_def sentencer_result_ok_def py_get_first py_get_last
        remdups_map_shorter sort_fixed list_all_iff strict_sorted_iff hd_map last_map
      split: sum.splits)

text \<open>
  Claim C10. \<open>set_preprocess_result\<close> with the sentencer step and an empty list
  raises \<open>IndexError\<close> (from reading \<open>result[0]\<close>), not the \<open>ValueError\<close> of the
  validation, and writes nothing.
\<close>

theorem sentencer_empty_is_IndexError:
  "set_preprocess_result unzip doc (Sentencer []) = (doc, Some IndexError)"
  by (simp add: set_preprocess_result_def check_sentencer_def py_get_def)

text \<open>
  Claim C8. \<open>set_preprocess_result\<close> validates before it mutates. For the
  sentencer step the write succeeds exactly when the result holds only ints, is
  strictly increasing, starts at 0 and ends at the token count; for the tagging
  step exactly when the result is as long as the token list. Any violation
  raises an error and leaves the document as it was.
\<close>

theorem set_preprocess_result_validates:
  "(sentencer_result_ok doc result \<longrightarrow>
      set_preprocess_result unzip doc (Sentencer result) =
        (flag_preprocess_done (doc\<lparr>doc_sentences := map int_of result\<rparr>) sentencer, None)) \<and>
   (\<not> sentencer_result_ok doc result \<longrightarrow>
      (\<exists>e. set_preprocess_result unzip doc (Sentencer result) = (doc, Some e))) \<and>
   (length tags = length (doc_tokens doc) \<longrightarrow>
      set_preprocess_result unzip doc (Tagging tags) =
        (flag_preprocess_done (doc\<lparr>doc_postags := tags\<rparr>) tagging, None)) \<and>
   (length tags \<noteq> length (doc_tokens doc) \<longrightarrow>
      set_preprocess_result unzip doc (Tagging tags) = (doc, Some ValueError))"
proof (intro conjI impI)
  assume "sentencer_result_ok doc result"
  then have "check_sentencer doc result = None" by (simp add: check_sentencer_None)
  then show "set_preprocess_result unzip doc (Sentencer result) =
        (flag_preprocess_done (doc\<lparr>doc_sentences := map int_of result\<rparr>) sentencer, None)"
    by (simp add: set_preprocess_result_def)
next
  assume "\<not> sentencer_result_ok doc result"
  then have "check_sentencer doc result \<noteq> None" by (simp add: check_sentencer_None)
  then show "\<exists>e. set_preprocess_result unzip doc (Sentencer result) = (doc, Some e)"
    by (auto simp: set_preprocess_result_def)
next
  assume "length tags = length (doc_tokens doc)"
  then show "set_preprocess_result unzip doc (Tagging tags) =
        (flag_preprocess_done (doc\<lparr>doc_postags := tags\<rparr>) tagging, None)"
    by (simp add: set_preprocess_result_def check_tagging_def)
next
  assume "length tags \<noteq> length (doc_tokens doc)"
  then show "set_preprocess_result unzip doc (Tagging tags) = (doc, Some ValueError)"
    by (simp add: set_preprocess_result_def check_tagging_def)
qed

theorem set_preprocess_result_validates_witness:
  "sentencer_result_ok two_token_doc [IntVal 0, IntVal 2] \<and>
   doc_sentences (fst (set_preprocess_result split_pairs two_token_doc (Sentencer [IntVal 0, IntVal 2])))
     = [0, 2] \<and>
   \<not> sentencer_result_ok two_token_doc [IntVal 0, IntVal 0, IntVal 2] \<and>
   fst (set_preprocess_result split_pairs two_token_doc (Sentencer [IntVal 0, IntVal 0, IntVal 2]))
     = two_token_doc \<and>
   length [''N'', ''V''] = length (doc_tokens two_token_doc) \<and>
   doc_postags (fst (set_preprocess_result split_pairs two_token_doc (Tagging [''N'', ''V''])))
     = [''N'', ''V''] \<and>
   length [''N''] \<noteq> length (doc_tokens two_token_doc) \<and>
   set_preprocess_result split_pairs two_token_doc (Tagging [''N'']) = (two_token_doc, Some ValueError)"
  using set_preprocess_result_validates [of two_token_doc "[IntVal 0, IntVal 2]" split_pairs "[''N'', ''V'']"]
    set_preprocess_result_validates [of two_token_doc "[IntVal 0, IntVal 0, IntVal 2]" split_pairs "[''N'']"]
  by (auto simp: sentencer_result_ok_def two_token_doc_def flag_preprocess_done_def)

section \<open>Properties of dicts\<close>

lemma dict_update_keys: "fst ` set (dict_update d items) = fst ` set d \<union> fst ` set items"
proof (induction items arbitrary: d)
  case Nil
  then show ?case by (simp add: dict_update_def)
next
  case (Cons x xs)
  have "dict_update d (x # xs) = dict_update (AList.update (fst x) (snd x) d) xs"
    by (simp add: dict_update_def case_prod_beta)
  with Cons [of "AList.update (fst x) (snd x) d"] show ?case
    by (auto simp: dom_update)
qed

lemma dict_of_keys: "fst ` set (dict_of items) = fst ` set items"
  by (simp add: dict_of_def dict_update_keys)

section \<open>Construction of the pipeline\<close>

lemma build_relations_step:
  "build_relations (e # es) rels =
     (if map_of rels (ev_relation e) \<noteq> None \<and> Some (ev_kinds e) \<noteq> map_of rels (ev_relation e)
      then Inl ValueError
      else build_relations es (AList.update (ev_relation e) (ev_kinds e) rels))"
  by (simp add: ev_relation_def ev_kinds_def kind_pair_def Let_def)

lemma build_relations_error: "build_relations es rels = Inl err \<Longrightarrow> err = ValueError"
proof (induction es arbitrary: rels)
  case Nil
  then show ?case by simp
next
  case (Cons e es)
  show ?case
  proof (cases "map_of rels (ev_relation e) \<noteq> None \<and> Some (ev_kinds e) \<noteq> map_of rels (ev_relation e)")
    case True
    with Cons.prems show ?thesis by (simp only: build_relations_step if_True) simp
  next
    case False
    with Cons.prems have "build_relations es (AList.update (ev_relation e) (ev_kinds e) rels) = Inl err"
      by (simp only: build_relations_step if_False)
    then show ?thesis by (rule Cons.IH)
  qed
qed

lemma build_relations_result:
  "build_relations es rels = Inr rels' \<Longrightarrow>
     (\<forall>x \<in> set es. map_of rels' (ev_relation x) = Some (ev_kinds x)) \<and>
     (\<forall>r v. map_of rels r = Some v \<longrightarrow> map_of rels' r = Some v) \<and>
     fst ` set rels' = fst ` set rels \<union> ev_relation ` set es"
proof (induction es arbitrary: rels)
  case Nil
  then show ?case by simp
next
  case (Cons e es)
  let ?r = "ev_relation e" and ?kp = "ev_kinds e"
  let ?rels1 = "AList.update ?r ?kp rels"
  have ok: "\<not> (map_of rels ?r \<noteq> None \<and> Some ?kp \<noteq> map_of rels ?r)"
  proof
    assume "map_of rels ?r \<noteq> None \<and> Some ?kp \<noteq> map_of rels ?r"
    with Cons.prems show False by (simp only: build_relations_step if_True) simp
  qed
  with Cons.prems have run: "build_relations es ?rels1 = Inr rels'"
    by (simp only: build_relations_step if_False)
  have m: "map_of ?rels1 = (map_of rels)(?r \<mapsto> ?kp)" by (rule update_conv')
  have d: "fst ` set ?rels1 = {?r} \<union> fst ` set rels" by (rule dom_update)
  from Cons.IH [OF run]
  have i1: "\<forall>x \<in> set es. map_of rels' (ev_relation x) = Some (ev_kinds x)"
    and i2: "\<forall>r v. map_of ?rels1 r = Some v \<longrightarrow> map_of rels' r = Some v"
    and i3: "fst ` set rels' = fst ` set ?rels1 \<union> ev_relation ` set es"
    by blast+
  have "map_of ?rels1 ?r = Some ?kp" by (simp only: m fun_upd_same)
  with i2 have head: "map_of rels' ?r = Some ?kp" by blast
  have g1: "\<forall>x \<in> set (e # es). map_of rels' (ev_relation x) = Some (ev_kinds x)"
    using i1 head by simp
  have g2: "\<forall>r v. map_of rels r = Some v \<longrightarrow> map_of rels' r = Some v"
  proof (intro allI impI)
    fix r v assume rv: "map_of rels r = Some v"
    show "map_of rels' r = Some v"
    proof (cases "r = ?r")
      case True
      with rv ok have "Some ?kp = Some v" by auto
      then have "v = ?kp" by simp
      with True head show ?thesis by simp
    next
      case False
      with rv m have "map_of ?rels1 r = Some v" by simp
      with i2 show ?thesis by blast
    qed
  qed
  have g3: "fst ` set rels' = fst ` set rels \<union> ev_relation ` set (e # es)"
    using i3 d by auto
  show ?case by (rule conjI [OF g1 conjI [OF g2 g3]])
qed

lemma build_relations_succeeds:
  "(\<forall>x \<in> set es. map_of rels (ev_relation x) = None \<or>
                   map_of rels (ev_relation x) = Some (ev_kinds x)) \<Longrightarrow>
   (\<forall>x \<in> set es. \<forall>y \<in> set es. ev_relation x = ev_relation y \<longrightarrow> ev_kinds x = ev_kinds y) \<Longrightarrow>
   \<exists>rels'. build_relations es rels = Inr rels'"
proof (induction es arbitrary: rels)
  case Nil
  show ?case by simp
next
  case (Cons e es)
  let ?r = "ev_relation e" and ?kp = "ev_kinds e"
  let ?rels1 = "AList.update ?r ?kp rels"
  have "e \<in> set (e # es)" by simp
  with Cons.prems(1) have "map_of rels ?r = None \<or> map_of rels ?r = Some ?kp" by blast
  then have ok: "\<not> (map_of rels ?r \<noteq> None \<and> Some ?kp \<noteq> map_of rels ?r)" by auto
  have m: "map_of ?rels1 = (map_of rels)(?r \<mapsto> ?kp)" by (rule update_conv')
  have h1: "\<forall>x \<in> set es. map_of ?rels1 (ev_relation x) = None \<or>
                           map_of ?rels1 (ev_relation x) = Some (ev_kinds x)"
  proof
    fix x assume x: "x \<in> set es"
    show "map_of ?rels1 (ev_relation x) = None \<or> map_of ?rels1 (ev_relation x) = Some (ev_kinds x)"
    proof (cases "ev_relation x = ?r")
      case True
      have "x \<in> set (e # es)" "e \<in> set (e # es)" using x by simp_all
      with Cons.prems(2) True have "ev_kinds x = ?kp" by blast
      with True m show ?thesis by simp
    next
      case False
      have "x \<in> set (e # es)" using x by simp
      with Cons.prems(1) have "map_of rels (ev_relation x) = None \<or>
         map_of rels (ev_relation x) = Some (ev_kinds x)" by blast
      with False m show ?thesis by simp
    qed
  qed
  have h2: "\<forall>x \<in> set es. \<forall>y \<in> set es. ev_relation x = ev_relation y \<longrightarrow> ev_kinds x = ev_kinds y"
  proof (intro ballI impI)
    fix x y assume "x \<in> set es" "y \<in> set es" "ev_relation x = ev_relation y"
    moreover then have "x \<in> set (e # es)" "y \<in> set (e # es)" by simp_all
    ultimately show "ev_kinds x = ev_kinds y" using Cons.prems(2) by blast
  qed
  from Cons.IH [OF h1 h2] obtain rels' where "build_relations es ?rels1 = Inr rels'" by blast
  with ok show ?case by (simp only: build_relations_step if_False) blast
qed

lemma seed_knowledge_keys:
  "set (map fst (seed_knowledge seed_facts)) =
     (\<lambda>f. \<lparr>ev_fact = f, ev_segment = None, ev_o1 = None, ev_o2 = None\<rparr>) ` set seed_facts"
  by (simp add: seed_knowledge_def dict_of_keys image_image)

lemma seed_knowledge_relations:
  "ev_relation ` set (map fst (seed_knowledge seed_facts)) = fact_relation ` set seed_facts"
  by (simp only: seed_knowledge_keys) (simp add: image_image ev_relation_def)

lemma seed_key_of_fact:
  "f \<in> set seed_facts \<Longrightarrow>
     \<exists>x \<in> set (map fst (seed_knowledge seed_facts)).
        ev_relation x = fact_relation f \<and> ev_kinds x = kind_pair f"
  by (simp only: seed_knowledge_keys) (auto simp: ev_relation_def ev_kinds_def)

lemma fact_of_seed_key:
  "x \<in> set (map fst (seed_knowledge seed_facts)) \<Longrightarrow>
     \<exists>f \<in> set seed_facts. ev_relation x = fact_relation f \<and> ev_kinds x = kind_pair f"
  by (simp only: seed_knowledge_keys) (auto simp: ev_relation_def ev_kinds_def)

lemma init_Inr:
  "init db seed_facts = Inr p \<longleftrightarrow>
     (\<exists>rels. build_relations (map fst (seed_knowledge seed_facts)) [] = Inr rels \<and>
        p = \<lparr>db_con = db, knowledge = seed_knowledge seed_facts, evidence_threshold = 99 / 100,
             fact_threshold = 99 / 100, questions = [], answers = [], step_position = 0,
             relations = rels\<rparr>)"
  by (cases "build_relations (map fst (seed_knowledge seed_facts)) []") (auto simp: init_def)

lemma init_Inl:
  "init db seed_facts = Inl err \<longleftrightarrow>
     build_relations (map fst (seed_knowledge seed_facts)) [] = Inl err"
  by (cases "build_relations (map fst (seed_knowledge seed_facts)) []") (auto simp: init_def)

text \<open>
  Claim C7. The construction of a pipeline fails, and then with \<open>ValueError\<close>,
  exactly when two seed facts carry the same relation label with different pairs
  of entity kinds; otherwise the table of relations maps the label of every seed
  fact to its pair of kinds and has no other label.
\<close>

theorem init_fails_iff_ambiguous:
  "((\<exists>err. init db seed_facts = Inl err) \<longleftrightarrow>
      (\<exists>f \<in> set seed_facts. \<exists>g \<in> set seed_facts.
         fact_relation f = fact_relation g \<and> kind_pair f \<noteq> kind_pair g)) \<and>
   (\<forall>err. init db seed_facts = Inl err \<longrightarrow> err = ValueError) \<and>
   (\<forall>p. init db seed_facts = Inr p \<longrightarrow>
      (\<forall>f \<in> set seed_facts. map_of (relations p) (fact_relation f) = Some (kind_pair f)) \<and>
      fst ` set (relations p) = fact_relation ` set seed_facts)"
proof (intro conjI allI impI ballI)
  let ?es = "map fst (seed_knowledge seed_facts)"
  show "(\<exists>err. init db seed_facts = Inl err) \<longleftrightarrow>
      (\<exists>f \<in> set seed_facts. \<exists>g \<in> set seed_facts.
         fact_relation f = fact_relation g \<and> kind_pair f \<noteq> kind_pair g)"
  proof
    assume "\<exists>err. init db seed_facts = Inl err"
    then obtain err where "build_relations ?es [] = Inl err" by (auto simp: init_Inl)
    then have no: "\<not> (\<exists>rels'. build_relations ?es [] = Inr rels')" by simp
    have "\<not> (\<forall>x \<in> set ?es. \<forall>y \<in> set ?es. ev_relation x = ev_relation y \<longrightarrow> ev_kinds x = ev_kinds y)"
    proof
      assume a: "\<forall>x \<in> set ?es. \<forall>y \<in> set ?es. ev_relation x = ev_relation y \<longrightarrow> ev_kinds x = ev_kinds y"
      have e1: "\<forall>x \<in> set ?es. map_of [] (ev_relation x) = None \<or>
                   map_of [] (ev_relation x) = Some (ev_kinds x)" by simp
      have "\<exists>rels'. build_relations ?es [] = Inr rels'"
        by (rule build_relations_succeeds [OF e1 a])
      with no show False by simp
    qed
    then obtain x y where xy: "x \<in> set ?es" "y \<in> set ?es" "ev_relation x = ev_relation y"
      "ev_kinds x \<noteq> ev_kinds y" by blast
    from fact_of_seed_key [OF xy(1)] obtain f where
      f: "f \<in> set seed_facts" "ev_relation x = fact_relation f" "ev_kinds x = kind_pair f" by blast
    from fact_of_seed_key [OF xy(2)] obtain g where
      g: "g \<in> set seed_facts" "ev_relation y = fact_relation g" "ev_kinds y = kind_pair g" by blast
    from xy f g have "fact_relation f = fact_relation g \<and> kind_pair f \<noteq> kind_pair g" by simp
    with f(1) g(1) show "\<exists>f \<in> set seed_facts. \<exists>g \<in> set seed_facts.
         fact_relation f = fact_relation g \<and> kind_pair f \<noteq> kind_pair g" by blast
  next
    assume "\<exists>f \<in> set seed_facts. \<exists>g \<in> set seed_facts.
         fact_relation f = fact_relation g \<and> kind_pair f \<noteq> kind_pair g"
    then obtain f g where fg: "f \<in> set seed_facts" "g \<in> set seed_facts"
      "fact_relation f = fact_relation g" "kind_pair f \<noteq> kind_pair g" by blast
    from seed_key_of_fact [OF fg(1)] obtain x where
      x: "x \<in> set ?es" "ev_relation x = fact_relation f" "ev_kinds x = kind_pair f" by blast
    from seed_key_of_fact [OF fg(2)] obtain y where
      y: "y \<in> set ?es" "ev_relation y = fact_relation g" "ev_kinds y = kind_pair g" by blast
    show "\<exists>err. init db seed_facts = Inl err"
    proof (cases "build_relations ?es []")
      case (Inl err)
      then show ?thesis by (auto simp: init_Inl)
    next
      case (Inr rels')
      from build_relations_result [OF Inr] x(1) y(1)
      have "map_of rels' (ev_relation x) = Some (ev_kinds x)"
        "map_of rels' (ev_relation y) = Some (ev_kinds y)" by blast+
      with x y fg show ?thesis by simp
    qed
  qed
next
  fix err assume "init db seed_facts = Inl err"
  then have "build_relations (map fst (seed_knowledge seed_facts)) [] = Inl err"
    by (simp add: init_Inl)
  then show "err = ValueError" by (rule build_relations_error)
next
  fix p f assume p: "init db seed_facts = Inr p" and f: "f \<in> set seed_facts"
  then obtain rels where r: "build_relations (map fst (seed_knowledge seed_facts)) [] = Inr rels"
    and pr: "relations p = rels" by (auto simp: init_Inr)
  from seed_key_of_fact [OF f] obtain x where
    x: "x \<in> set (map fst (seed_knowledge seed_facts))" "ev_relation x = fact_relation f"
      "ev_kinds x = kind_pair f" by blast
  from build_relations_result [OF r] x(1)
  have "map_of rels (ev_relation x) = Some (ev_kinds x)" by blast
  with x pr show "map_of (relations p) (fact_relation f) = Some (kind_pair f)" by simp
next
  fix p assume p: "init db seed_facts = Inr p"
  then obtain rels where r: "build_relations (map fst (seed_knowledge seed_facts)) [] = Inr rels"
    and pr: "relations p = rels" by (auto simp: init_Inr)
  from build_relations_result [OF r]
  have "fst ` set rels = ev_relation ` set (map fst (seed_knowledge seed_facts))" by simp
  with pr show "fst ` set (relations p) = fact_relation ` set seed_facts"
    by (simp only: seed_knowledge_relations)
qed

theorem init_fails_iff_ambiguous_witness:
  "init empty_db [works_for, works_for_reversed] = Inl ValueError \<and>
   (\<exists>p. init empty_db [works_for] = Inr p \<and>
        map_of (relations p) ''works_for'' = Some (''person'', ''organization''))"
proof -
  have amb: "\<exists>f \<in> set [works_for, works_for_reversed]. \<exists>g \<in> set [works_for, works_for_reversed].
         fact_relation f = fact_relation g \<and> kind_pair f \<noteq> kind_pair g"
    by (simp add: works_for_def works_for_reversed_def kind_pair_def person_x_def org_y_def)
  have una: "\<not> (\<exists>f \<in> set [works_for]. \<exists>g \<in> set [works_for].
         fact_relation f = fact_relation g \<and> kind_pair f \<noteq> kind_pair g)"
    by simp
  from amb init_fails_iff_ambiguous [of empty_db "[works_for, works_for_reversed]"]
  have 1: "init empty_db [works_for, works_for_reversed] = Inl ValueError" by blast
  from una init_fails_iff_ambiguous [of empty_db "[works_for]"]
  obtain p where p: "init empty_db [works_for] = Inr p"
    by (cases "init empty_db [works_for]") auto
  with init_fails_iff_ambiguous [of empty_db "[works_for]"]
  have "map_of (relations p) (fact_relation works_for) = Some (kind_pair works_for)" by simp
  then have "map_of (relations p) ''works_for'' = Some (''person'', ''organization'')"
    by (simp add: works_for_def kind_pair_def person_x_def org_y_def)
  with 1 p show ?thesis by blast
qed

section \<open>Properties of \<open>filter_facts\<close>\<close>

lemma accepted_Cons:
  "accepted thr ((e0, sc) # fs) e =
     (if e = e0 then (case sc of Some x \<Rightarrow> thr < x | None \<Rightarrow> False) else accepted thr fs e)"
  by (simp add: accepted_def)

lemma accepted_key: "accepted thr fs e \<Longrightarrow> e \<in> fst ` set fs"
proof (rule ccontr)
  assume a: "accepted thr fs e" and "e \<notin> fst ` set fs"
  then have "map_of fs e = None" by (simp add: map_of_eq_None_iff)
  with a show False by (simp add: accepted_def)
qed

lemma merge_facts_keys: "fst ` set kn \<subseteq> fst ` set (fst (merge_facts thr kn fs))"
proof (induction fs arbitrary: kn)
  case Nil
  show ?case by simp
next
  case (Cons a fs)
  obtain e sc where a: "a = (e, sc)" by (cases a)
  show ?case
  proof (cases sc)
    case None
    with a show ?thesis by simp
  next
    case (Some x)
    show ?thesis
    proof (cases "thr < x")
      case True
      have "fst ` set kn \<subseteq> fst ` set (AList.update e sc kn)" by (auto simp: dom_update)
      also have "\<dots> \<subseteq> fst ` set (fst (merge_facts thr (AList.update e sc kn) fs))"
        by (rule Cons.IH)
      finally show ?thesis using a Some True by simp
    next
      case False
      with a Some Cons.IH [of kn] show ?thesis by simp
    qed
  qed
qed

lemma merge_facts_scored:
  "distinct (map fst fs) \<Longrightarrow> None \<notin> snd ` set fs \<Longrightarrow>
     snd (merge_facts thr kn fs) = None \<and>
     fst ` set (fst (merge_facts thr kn fs)) = fst ` set kn \<union> {e. accepted thr fs e} \<and>
     (\<forall>e. map_of (fst (merge_facts thr kn fs)) e =
            (if accepted thr fs e then map_of fs e else map_of kn e))"
proof (induction fs arbitrary: kn)
  case Nil
  show ?case by (simp add: accepted_def)
next
  case (Cons a fs)
  obtain e0 sc where a: "a = (e0, sc)" by (cases a)
  from Cons.prems a obtain x where sc: "sc = Some x" by (cases sc) (auto simp: image_iff)
  from Cons.prems a have d: "distinct (map fst fs)" and n: "None \<notin> snd ` set fs"
    and fresh: "e0 \<notin> fst ` set fs" by auto
  from fresh have nacc: "\<not> accepted thr fs e0" using accepted_key by blast
  from fresh have nomap: "map_of fs e0 = None" by (simp add: map_of_eq_None_iff)
  show ?case
  proof (cases "thr < x")
    case True
    let ?kn1 = "AList.update e0 sc kn"
    have step: "merge_facts thr kn (a # fs) = merge_facts thr ?kn1 fs"
      using a sc True by simp
    have m: "map_of ?kn1 = (map_of kn)(e0 \<mapsto> sc)" by (rule update_conv')
    have k: "fst ` set ?kn1 = {e0} \<union> fst ` set kn" by (rule dom_update)
    from Cons.IH [OF d n, of ?kn1]
    have i1: "snd (merge_facts thr ?kn1 fs) = None"
      and i2: "fst ` set (fst (merge_facts thr ?kn1 fs)) = fst ` set ?kn1 \<union> {e. accepted thr fs e}"
      and i3: "\<forall>e. map_of (fst (merge_facts thr ?kn1 fs)) e =
            (if accepted thr fs e then map_of fs e else map_of ?kn1 e)"
      by blast+
    have g2: "fst ` set (fst (merge_facts thr ?kn1 fs)) =
                fst ` set kn \<union> {e. accepted thr (a # fs) e}"
      using i2 k a sc True by (auto simp: accepted_Cons)
    have g3: "\<forall>e. map_of (fst (merge_facts thr ?kn1 fs)) e =
            (if accepted thr (a # fs) e then map_of (a # fs) e else map_of kn e)"
    proof
      fix e
      show "map_of (fst (merge_facts thr ?kn1 fs)) e =
            (if accepted thr (a # fs) e then map_of (a # fs) e else map_of kn e)"
      proof (cases "e = e0")
        case True
        with i3 nacc m a sc \<open>thr < x\<close> show ?thesis by (simp add: accepted_Cons)
      next
        case False
        with i3 m a show ?thesis by (simp add: accepted_Cons)
      qed
    qed
    show ?thesis unfolding step by (rule conjI [OF i1 conjI [OF g2 g3]])
  next
    case False
    have step: "merge_facts thr kn (a # fs) = merge_facts thr kn fs"
      using a sc False by simp
    from Cons.IH [OF d n, of kn]
    have i1: "snd (merge_facts thr kn fs) = None"
      and i2: "fst ` set (fst (merge_facts thr kn fs)) = fst ` set kn \<union> {e. accepted thr fs e}"
      and i3: "\<forall>e. map_of (fst (merge_facts thr kn fs)) e =
            (if accepted thr fs e then map_of fs e else map_of kn e)"
      by blast+
    have g2: "fst ` set (fst (merge_facts thr kn fs)) =
                fst ` set kn \<union> {e. accepted thr (a # fs) e}"
      using i2 a sc False nacc by (auto simp: accepted_Cons)
    have g3: "\<forall>e. map_of (fst (merge_facts thr kn fs)) e =
            (if accepted thr (a # fs) e then map_of (a # fs) e else map_of kn e)"
    proof
      fix e
      show "map_of (fst (merge_facts thr kn fs)) e =
            (if accepted thr (a # fs) e then map_of (a # fs) e else map_of kn e)"
      proof (cases "e = e0")
        case True
        with i3 nacc a sc \<open>\<not> thr < x\<close> show ?thesis by (simp add: accepted_Cons)
      next
        case False
        with i3 a show ?thesis by (simp add: accepted_Cons)
      qed
    qed
    show ?thesis unfolding step by (rule conjI [OF i1 conjI [OF g2 g3]])
  qed
qed

lemma filter_facts_fst:
  "fst (filter_facts p facts) =
     p\<lparr>knowledge := fst (merge_facts (fact_threshold p) (knowledge p) facts)\<rparr>"
  by (cases "merge_facts (fact_threshold p) (knowledge p) facts")
     (auto simp: filter_facts_def split: option.splits)

lemma filter_facts_snd:
  "snd (filter_facts p facts) =
     (case snd (merge_facts (fact_threshold p) (knowledge p) facts) of
        Some e \<Rightarrow> Inl e | None \<Rightarrow> Inr facts)"
  by (cases "merge_facts (fact_threshold p) (knowledge p) facts")
     (auto simp: filter_facts_def split: option.splits)

text \<open>
  Claim C6. \<open>filter_facts\<close> never removes a key of the knowledge. When \<open>facts\<close>
  is a dict whose scores are numbers, it returns \<open>facts\<close> itself, changes no
  other field of the pipeline, adds exactly the keys whose score exceeds
  \<open>fact_threshold\<close>, gives these their score in \<open>facts\<close> and keeps the score of
  every other key.
\<close>

theorem filter_facts_merges_accepted:
  "fst ` set (knowledge p) \<subseteq> fst ` set (knowledge (fst (filter_facts p facts))) \<and>
   (distinct (map fst facts) \<and> None \<notin> snd ` set facts \<longrightarrow>
      snd (filter_facts p facts) = Inr facts \<and>
      fst (filter_facts p facts) = p\<lparr>knowledge := knowledge (fst (filter_facts p facts))\<rparr> \<and>
      fst ` set (knowledge (fst (filter_facts p facts))) =
        fst ` set (knowledge p) \<union> {e. accepted (fact_threshold p) facts e} \<and>
      (\<forall>e. map_of (knowledge (fst (filter_facts p facts))) e =
             (if accepted (fact_threshold p) facts e then map_of facts e
              else map_of (knowledge p) e)))"
proof (intro conjI impI)
  show "fst ` set (knowledge p) \<subseteq> fst ` set (knowledge (fst (filter_facts p facts)))"
    by (simp add: filter_facts_fst merge_facts_keys)
next
  assume "distinct (map fst facts) \<and> None \<notin> snd ` set facts"
  then have d: "distinct (map fst facts)" and n: "None \<notin> snd ` set facts" by simp_all
  note m = merge_facts_scored [OF d n, of "fact_threshold p" "knowledge p"]
  show "snd (filter_facts p facts) = Inr facts"
    using m by (simp add: filter_facts_snd)
  show "fst (filter_facts p facts) = p\<lparr>knowledge := knowledge (fst (filter_facts p facts))\<rparr>"
    by (simp add: filter_facts_fst)
  show "fst ` set (knowledge (fst (filter_facts p facts))) =
        fst ` set (knowledge p) \<union> {e. accepted (fact_threshold p) facts e}"
    using m by (simp add: filter_facts_fst)
  show "\<forall>e. map_of (knowledge (fst (filter_facts p facts))) e =
             (if accepted (fact_threshold p) facts e then map_of facts e
              else map_of (knowledge p) e)"
    using m by (simp add: filter_facts_fst)
qed

theorem filter_facts_merges_accepted_witness:
  "distinct (map fst [(strong_evidence, Some (1::real)), (weak_evidence, Some (1 / 2))]) \<and>
   None \<notin> snd ` set [(strong_evidence, Some (1::real)), (weak_evidence, Some (1 / 2))] \<and>
   snd (filter_facts seeded_pipeline [(strong_evidence, Some 1), (weak_evidence, Some (1 / 2))])
     = Inr [(strong_evidence, Some 1), (weak_evidence, Some (1 / 2))] \<and>
   map_of (knowledge (fst (filter_facts seeded_pipeline
       [(strong_evidence, Some 1), (weak_evidence, Some (1 / 2))]))) strong_evidence = Some (Some 1) \<and>
   map_of (knowledge (fst (filter_facts seeded_pipeline
       [(strong_evidence, Some 1), (weak_evidence, Some (1 / 2))]))) weak_evidence = None"
proof -
  let ?facts = "[(strong_evidence, Some (1::real)), (weak_evidence, Some (1 / 2))]"
  have ne: "strong_evidence \<noteq> weak_evidence"
    by (simp add: strong_evidence_def weak_evidence_def person_x_def org_y_def)
  have h: "distinct (map fst ?facts) \<and> None \<notin> snd ` set ?facts" using ne by simp
  have a1: "accepted (fact_threshold seeded_pipeline) ?facts strong_evidence"
    by (simp add: accepted_def seeded_pipeline_def)
  have a2: "\<not> accepted (fact_threshold seeded_pipeline) ?facts weak_evidence"
    using ne by (simp add: accepted_def seeded_pipeline_def)
  have k: "map_of (knowledge seeded_pipeline) weak_evidence = None"
    by (simp add: seeded_pipeline_def seed_knowledge_def dict_of_def dict_update_def
          weak_evidence_def works_for_def person_x_def org_y_def)
  from filter_facts_merges_accepted [of seeded_pipeline ?facts] h
  have r: "snd (filter_facts seeded_pipeline ?facts) = Inr ?facts"
    and m: "\<forall>e. map_of (knowledge (fst (filter_facts seeded_pipeline ?facts))) e =
             (if accepted (fact_threshold seeded_pipeline) ?facts e then map_of ?facts e
              else map_of (knowledge seeded_pipeline) e)"
    by blast+
  from m a1 have s: "map_of (knowledge (fst (filter_facts seeded_pipeline ?facts))) strong_evidence
      = Some (Some 1)" by simp
  from m a2 k have w: "map_of (knowledge (fst (filter_facts seeded_pipeline ?facts))) weak_evidence
      = None" by simp
  from h r s w show ?thesis by blast
qed

section \<open>Ranking by certainty\<close>

text \<open>
  Claim C1 says that \<open>by_certainty\<close> ranks an evidence of unknown score exactly
  as if its score were 0.5, as the docstring of the method does. The code gives
  such an item the sort key 0 instead: with two evidences \<open>1 < 2\<close>, the one with
  score \<open>None\<close> comes last, where it comes first once its score is 0.5.
\<close>

theorem by_certainty_ranks_unknown_last:
  "by_certainty [(2::nat, None), (1, Some (1 / 2))] = [(1, Some (1 / 2)), (2, None)] \<and>
   by_certainty [(2::nat, Some (1 / 2)), (1, Some (1 / 2))] = [(2, Some (1 / 2)), (1, Some (1 / 2))]"
  by (simp add: by_certainty_def key_funct_def certainty_def)

section \<open>Contextual segments on sample documents\<close>

text \<open>
  Claim C3 says that of two overlapping consecutive candidate windows only the
  larger one is materialized. On the document with four entity occurrences and
  \<open>d = 5\<close> the candidate windows are \<open>[0,10)\<close>, \<open>[0,12)\<close> and \<open>[0,12)\<close>; the code
  discards the repeat only and saves both \<open>[0,10)\<close> and the larger \<open>[0,12)\<close>
  that contains it.
\<close>

theorem contextual_segments_keep_smaller_window:
  "map token_range (fst (build_contextual_segments four_entity_doc 5)) = [(0, 10), (0, 12)] \<and>
   snd (build_contextual_segments four_entity_doc 5) = None"
  by code_simp

text \<open>
  Claim C4 says that no saved window splits an entity occurrence. On the
  document with nested occurrences and \<open>d = 2\<close> the code saves the windows
  \<open>[0,8)\<close> and \<open>[0,6)\<close>; the end of the second lies inside the first
  occurrence, which spans \<open>[0,8)\<close>.
\<close>

theorem contextual_segments_split_nested_entity:
  "map token_range (fst (build_contextual_segments nested_doc 2)) = [(0, 8), (0, 6)] \<and>
   snd (build_contextual_segments nested_doc 2) = None \<and>
   occ_offset (doc_entities nested_doc ! 0) < 6 \<and>
   6 < occ_offset_end (doc_entities nested_doc ! 0)"
  by code_simp

section \<open>Properties of \<open>TextSegment.build\<close>\<close>

lemma slice_is_filter:
  assumes lr: "l \<le> r" "r \<le> length xs"
    and before: "\<forall>i<l. \<not> P (xs ! i)"
    and inside: "\<forall>i. l \<le> i \<and> i < r \<longrightarrow> P (xs ! i)"
    and after: "\<forall>i. r \<le> i \<and> i < length xs \<longrightarrow> \<not> P (xs ! i)"
  shows "drop l (take r xs) = filter P xs"
proof -
  have split: "xs = take l xs @ drop l (take r xs) @ drop r xs"
  proof -
    have "take r xs = take l (take r xs) @ drop l (take r xs)"
      by (rule append_take_drop_id [symmetric])
    also have "take l (take r xs) = take l xs" using lr by (simp add: min_def)
    finally have tr: "take l xs @ drop l (take r xs) = take r xs" by simp
    have "xs = take r xs @ drop r xs" by (rule append_take_drop_id [symmetric])
    also have "\<dots> = (take l xs @ drop l (take r xs)) @ drop r xs" by (simp only: tr)
    finally show ?thesis by (simp only: append_assoc)
  qed
  have f1: "filter P (take l xs) = []"
  proof -
    have "\<forall>x \<in> set (take l xs). \<not> P x"
    proof
      fix x assume "x \<in> set (take l xs)"
      then obtain i where "i < l" "i < length xs" "x = xs ! i"
        by (auto simp: in_set_conv_nth)
      with before show "\<not> P x" by simp
    qed
    then show ?thesis by (simp add: filter_empty_conv)
  qed
  have f2: "filter P (drop l (take r xs)) = drop l (take r xs)"
  proof -
    have "\<forall>x \<in> set (drop l (take r xs)). P x"
    proof
      fix x assume "x \<in> set (drop l (take r xs))"
      then obtain i where "i < r - l" "x = xs ! (l + i)" using lr
        by (auto simp: in_set_conv_nth)
      with inside show "P x" by simp
    qed
    then show ?thesis by (simp add: filter_id_conv)
  qed
  have f3: "filter P (drop r xs) = []"
  proof -
    have "\<forall>x \<in> set (drop r xs). \<not> P x"
    proof
      fix x assume "x \<in> set (drop r xs)"
      then obtain i where "i < length xs - r" "x = xs ! (r + i)" using lr
        by (auto simp: in_set_conv_nth)
      with after show "\<not> P x" by simp
    qed
    then show ?thesis by (simp add: filter_empty_conv)
  qed
  have "filter P xs = filter P (take l xs @ drop l (take r xs) @ drop r xs)"
    using split by simp
  also have "\<dots> = drop l (take r xs)" by (simp only: filter_append f1 f2 f3) simp
  finally show ?thesis by simp
qed

lemma build_entities_all:
  "\<forall>occ \<in> set occs. starts_in a b occ \<Longrightarrow> build_entities a b occs = Inr (map (rebase a) occs)"
  by (induction occs) (simp_all add: starts_in_def)

lemma build_entities_Inr:
  "build_entities a b occs = Inr entities \<Longrightarrow> entities = map (rebase a) occs"
  by (induction occs arbitrary: entities) (auto split: if_splits sum.splits)

lemma text_position_nonneg: "0 \<le> i \<Longrightarrow> \<exists>c. text_position doc i = Inr c"
  by (simp add: text_position_def py_get_def Let_def)

lemma entity_slice:
  assumes srt: "sorted (map occ_offset es)" and ab: "a \<le> b"
  shows "\<exists>l r. interval_offsets es a b 0 None occ_offset = Inr (l, r) \<and>
           py_slice es l r = filter (starts_in a b) es"
proof -
  from interval_offsets_nat [OF srt ab]
  obtain l r where res: "interval_offsets es a b 0 None occ_offset = Inr (int l, int r)"
    and lr: "l \<le> r" "r \<le> length es"
    and l1: "\<forall>i<l. occ_offset (es ! i) < a"
    and l2: "\<forall>i. l \<le> i \<and> i < length es \<longrightarrow> a \<le> occ_offset (es ! i)"
    and r1: "\<forall>i<r. occ_offset (es ! i) < b"
    and r2: "\<forall>i. r \<le> i \<and> i < length es \<longrightarrow> b \<le> occ_offset (es ! i)" by blast
  have "drop l (take r es) = filter (starts_in a b) es"
  proof (rule slice_is_filter [OF lr])
    show "\<forall>i<l. \<not> starts_in a b (es ! i)" using l1 by (auto simp: starts_in_def)
    show "\<forall>i. l \<le> i \<and> i < r \<longrightarrow> starts_in a b (es ! i)"
      using l2 r1 lr by (auto simp: starts_in_def)
    show "\<forall>i. r \<le> i \<and> i < length es \<longrightarrow> \<not> starts_in a b (es ! i)"
      using r2 by (auto simp: starts_in_def)
  qed
  then have "py_slice es (int l) (int r) = filter (starts_in a b) es"
    using lr by (simp add: py_slice_def)
  with res show ?thesis by blast
qed

lemma py_slice_length: "0 \<le> a \<Longrightarrow> a \<le> b \<Longrightarrow> int (length (py_slice xs a b)) \<le> b - a"
  by (auto simp: py_slice_def py_bound_def)

lemma build_Inr_entities:
  assumes b: "build doc a b = Inr seg"
  shows "\<exists>l r. interval_offsets (doc_entities doc) a b 0 None occ_offset = Inr (l, r) \<and>
           seg_entities seg = map (rebase a) (py_slice (doc_entities doc) l r) \<and>
           seg_tokens seg = py_slice (doc_tokens doc) a b"
  using b
  by (auto simp: build_def split: sum.splits prod.splits dest: build_entities_Inr)

lemma interval_offsets_le: "interval_offsets xs a b 0 None key = Inr lr \<Longrightarrow> a \<le> b"
  by (auto simp: interval_offsets_def Let_def split: if_splits)

text \<open>
  Claim C9. On a document whose entity occurrences are sorted by start offset,
  a segment that \<open>TextSegment.build\<close> returns holds exactly the occurrences that
  start in \<open>[token_offset, token_offset_end)\<close>, in order and rebased by
  \<open>token_offset\<close>: one that starts before \<open>token_offset\<close> is left out even if it
  extends into the range, and one that extends past \<open>token_offset_end\<close> keeps an
  \<open>offset_end\<close> beyond the token count of the segment. The call returns a
  segment when \<open>0 \<le> token_offset \<le> token_offset_end\<close> and the sentence
  boundaries are sorted.
\<close>

theorem build_keeps_occurrences_starting_inside:
  assumes srt: "sorted (map occ_offset (doc_entities doc))"
  shows "(\<forall>seg. build doc a b = Inr seg \<longrightarrow>
            seg_entities seg = map (rebase a) (filter (starts_in a b) (doc_entities doc)) \<and>
            (0 \<le> a \<longrightarrow>
              (\<forall>occ \<in> set (doc_entities doc). starts_in a b occ \<and> b < occ_offset_end occ \<longrightarrow>
                 rebase a occ \<in> set (seg_entities seg) \<and>
                 int (length (seg_tokens seg)) < eis_offset_end (rebase a occ)))) \<and>
         (0 \<le> a \<and> a \<le> b \<and> sorted (doc_sentences doc) \<longrightarrow> (\<exists>seg. build doc a b = Inr seg))"
proof (intro conjI allI impI ballI)
  fix seg assume b: "build doc a b = Inr seg"
  from build_Inr_entities [OF b] obtain l r where
    io: "interval_offsets (doc_entities doc) a b 0 None occ_offset = Inr (l, r)"
    and se: "seg_entities seg = map (rebase a) (py_slice (doc_entities doc) l r)" by blast
  from io have ab: "a \<le> b" by (rule interval_offsets_le)
  from entity_slice [OF srt ab] io
  have "py_slice (doc_entities doc) l r = filter (starts_in a b) (doc_entities doc)" by auto
  with se show "seg_entities seg = map (rebase a) (filter (starts_in a b) (doc_entities doc))"
    by simp
next
  fix seg occ assume b: "build doc a b = Inr seg" and a0: "0 \<le> a"
    and occ: "occ \<in> set (doc_entities doc)" and h: "starts_in a b occ \<and> b < occ_offset_end occ"
  from build_Inr_entities [OF b] obtain l r where
    io: "interval_offsets (doc_entities doc) a b 0 None occ_offset = Inr (l, r)"
    and se: "seg_entities seg = map (rebase a) (py_slice (doc_entities doc) l r)"
    and st: "seg_tokens seg = py_slice (doc_tokens doc) a b" by blast
  from io have ab: "a \<le> b" by (rule interval_offsets_le)
  from entity_slice [OF srt ab] io
  have "py_slice (doc_entities doc) l r = filter (starts_in a b) (doc_entities doc)" by auto
  with se occ h show "rebase a occ \<in> set (seg_entities seg)" by simp
  have "int (length (seg_tokens seg)) \<le> b - a" using st py_slice_length [OF a0 ab] by simp
  also have "\<dots> < occ_offset_end occ - a" using h by simp
  finally show "int (length (seg_tokens seg)) < eis_offset_end (rebase a occ)"
    by (simp add: rebase_def)
next
  assume h: "0 \<le> a \<and> a \<le> b \<and> sorted (doc_sentences doc)"
  then have a0: "0 \<le> a" and ab: "a \<le> b" and ss: "sorted (map (\<lambda>x. x) (doc_sentences doc))"
    by simp_all
  from a0 ab have b0: "0 \<le> b" by simp
  from text_position_nonneg [OF a0] obtain ts where ts: "text_position doc a = Inr ts" by blast
  from text_position_nonneg [OF b0] obtain te where te: "text_position doc b = Inr te" by blast
  from entity_slice [OF srt ab] obtain l r where
    io: "interval_offsets (doc_entities doc) a b 0 None occ_offset = Inr (l, r)"
    and sl: "py_slice (doc_entities doc) l r = filter (starts_in a b) (doc_entities doc)" by blast
  have be: "build_entities a b (py_slice (doc_entities doc) l r) =
              Inr (map (rebase a) (py_slice (doc_entities doc) l r))"
    by (rule build_entities_all) (simp add: sl)
  from interval_offsets_nat [OF ss ab] obtain sl' sr' where
    si: "interval_offsets (doc_sentences doc) a b 0 None (\<lambda>x. x) = Inr (int sl', int sr')" by blast
  show "\<exists>seg. build doc a b = Inr seg"
    by (simp add: build_def ts te io be si)
qed

theorem build_keeps_occurrences_starting_inside_witness:
  "sorted (map occ_offset (doc_entities overhang_doc)) \<and>
   (0::int) \<le> 2 \<and> (2::int) \<le> 4 \<and> sorted (doc_sentences overhang_doc) \<and>
   (\<exists>seg. build overhang_doc 2 4 = Inr seg \<and>
      seg_entities seg =
        [\<lparr>eis_key = ''OrgY'', eis_canonical_form = ''Org Y'', eis_kind = ''organization'',
          eis_offset = 1, eis_offset_end = 3, eis_alias = ''d e''\<rparr>] \<and>
      length (seg_tokens seg) = 2)"
proof -
  have srt: "sorted (map occ_offset (doc_entities overhang_doc))"
    by (simp add: overhang_doc_def)
  have h: "(0::int) \<le> 2 \<and> (2::int) \<le> 4 \<and> sorted (doc_sentences overhang_doc)"
    by (simp add: overhang_doc_def)
  from build_keeps_occurrences_starting_inside [OF srt, of 2 4] h
  obtain seg where seg: "build overhang_doc 2 4 = Inr seg" by blast
  with build_keeps_occurrences_starting_inside [OF srt, of 2 4]
  have "seg_entities seg = map (rebase 2) (filter (starts_in 2 4) (doc_entities overhang_doc))"
    by blast
  then have e: "seg_entities seg =
        [\<lparr>eis_key = ''OrgY'', eis_canonical_form = ''Org Y'', eis_kind = ''organization'',
          eis_offset = 1, eis_offset_end = 3, eis_alias = ''d e''\<rparr>]"
    by (simp add: overhang_doc_def starts_in_def rebase_def org_y_def)
  from build_Inr_entities [OF seg] have "seg_tokens seg = py_slice (doc_tokens overhang_doc) 2 4"
    by blast
  then have t: "length (seg_tokens seg) = 2"
    by (simp add: overhang_doc_def py_slice_def py_bound_def)
  from srt h seg e t show ?thesis by blast
qed

section \<open>The invariants of the evidence in the pipeline\<close>

lemma knowledge_okI: "(\<And>e. e \<in> fst ` set k \<Longrightarrow> evidence_invariants e) \<Longrightarrow> knowledge_ok k"
  unfolding knowledge_ok_def by blast

lemma knowledge_okD: "knowledge_ok k \<Longrightarrow> e \<in> fst ` set k \<Longrightarrow> evidence_invariants e"
  unfolding knowledge_ok_def by blast

lemma knowledge_ok_Nil: "knowledge_ok []"
  by (simp add: knowledge_ok_def)

lemma knowledge_ok_subset:
  "knowledge_ok k \<Longrightarrow> fst ` set k' \<subseteq> fst ` set k \<Longrightarrow> knowledge_ok k'"
  by (rule knowledge_okI) (blast dest: knowledge_okD)

lemma knowledge_ok_dict_update:
  "knowledge_ok d \<Longrightarrow> knowledge_ok items \<Longrightarrow> knowledge_ok (dict_update d items)"
proof (rule knowledge_okI)
  fix e assume d: "knowledge_ok d" and i: "knowledge_ok items"
    and "e \<in> fst ` set (dict_update d items)"
  then have "e \<in> fst ` set d \<or> e \<in> fst ` set items" by (simp add: dict_update_keys)
  with d i show "evidence_invariants e" by (blast dest: knowledge_okD)
qed

lemma knowledge_ok_dict_of: "knowledge_ok items \<Longrightarrow> knowledge_ok (dict_of items)"
  by (simp add: dict_of_def knowledge_ok_dict_update knowledge_ok_Nil)

lemma knowledge_ok_filter: "knowledge_ok k \<Longrightarrow> knowledge_ok (filter P k)"
  by (rule knowledge_ok_subset) auto

lemma knowledge_ok_update:
  "knowledge_ok k \<Longrightarrow> evidence_invariants e \<Longrightarrow> knowledge_ok (AList.update e s k)"
proof (rule knowledge_okI)
  fix x assume k: "knowledge_ok k" and e: "evidence_invariants e"
    and "x \<in> fst ` set (AList.update e s k)"
  then have "x = e \<or> x \<in> fst ` set k" by (simp add: dom_update)
  with k e show "evidence_invariants x" by (blast dest: knowledge_okD)
qed

lemma knowledge_ok_Cons:
  "knowledge_ok ((e, s) # k) \<longleftrightarrow> evidence_invariants e \<and> knowledge_ok k"
  by (simp add: knowledge_ok_def)

lemma unlocated_invariants: "unlocated e \<Longrightarrow> evidence_invariants e"
  by (simp add: unlocated_def evidence_invariants_def occurrence_matches_def)

lemma seed_knowledge_unlocated: "e \<in> fst ` set (seed_knowledge seed_facts) \<Longrightarrow> unlocated e"
proof -
  assume "e \<in> fst ` set (seed_knowledge seed_facts)"
  then have "e \<in> set (map fst (seed_knowledge seed_facts))" by simp
  then show "unlocated e" by (simp only: seed_knowledge_keys) (auto simp: unlocated_def)
qed

lemma seed_knowledge_ok: "knowledge_ok (seed_knowledge seed_facts)"
  by (rule knowledge_okI) (blast intro: unlocated_invariants seed_knowledge_unlocated)

subsection \<open>Evidence built by \<open>start\<close>\<close>

lemma enumerate_index:
  "(i, x) \<in> set (enumerate 0 xs) \<Longrightarrow> i < length xs \<and> x = xs ! i"
  by (auto simp: in_set_enumerate_eq)

lemma entity_occurrence_pairs_match:
  assumes "(i1, i2) \<in> set (entity_occurrence_pairs seg a b)"
  shows "i1 < length (seg_entities seg) \<and> is_entity (seg_entities seg ! i1) a \<and>
         i2 < length (seg_entities seg) \<and> is_entity (seg_entities seg ! i2) b"
  using assms by (auto simp: entity_occurrence_pairs_def Let_def dest: enumerate_index)

lemma located_pair_invariants:
  assumes "i1 < length (seg_entities seg)" "is_entity (seg_entities seg ! i1) (fact_e1 f)"
    "i2 < length (seg_entities seg)" "is_entity (seg_entities seg ! i2) (fact_e2 f)"
  shows "evidence_invariants \<lparr>ev_fact = f, ev_segment = Some seg, ev_o1 = Some i1, ev_o2 = Some i2\<rparr>"
  using assms by (simp add: evidence_invariants_def occurrence_matches_def is_entity_def)

lemma start_evidences_member:
  assumes "e \<in> fst ` set (start_evidences p)"
  shows "located e \<and> evidence_invariants e"
proof -
  from assms obtain f seg i1 i2 where
    e: "e = \<lparr>ev_fact = f, ev_segment = Some seg, ev_o1 = Some i1, ev_o2 = Some i2\<rparr>"
    and pr: "(i1, i2) \<in> set (entity_occurrence_pairs seg (fact_e1 f) (fact_e2 f))"
    by (auto simp: start_evidences_def dict_of_keys)
  from entity_occurrence_pairs_match [OF pr]
  have "evidence_invariants e" unfolding e by (intro located_pair_invariants) simp_all
  moreover have "located e" by (simp add: e located_def)
  ultimately show ?thesis by simp
qed

lemma start_evidences_ok: "knowledge_ok (start_evidences p)"
  by (rule knowledge_okI) (simp add: start_evidences_member)

subsection \<open>Evidence built by \<open>extract_facts\<close>\<close>

lemma get_entity_match:
  "get_entity db kind literal = Inr e \<Longrightarrow> entity_kind e = kind \<and> entity_key e = literal"
proof -
  assume g: "get_entity db kind literal = Inr e"
  let ?m = "filter (\<lambda>e. entity_kind e = kind \<and> entity_key e = literal) (db_entities db)"
  from g have "?m = [e]"
    by (auto simp: get_entity_def split: list.splits)
  then have "e \<in> set ?m" by simp
  then show ?thesis by simp
qed

lemma py_get_nat_Inr: "py_get xs (int i) = Inr x \<Longrightarrow> i < length xs \<and> x = xs ! i"
  by (auto simp: py_get_def Let_def split: if_splits)

lemma pair_evidences_member:
  "pair_evidences db r seg ps = Inr evs \<Longrightarrow> e \<in> set evs \<Longrightarrow>
     located e \<and> evidence_invariants e"
proof (induction ps arbitrary: evs)
  case Nil
  then show ?case by simp
next
  case (Cons pr ps)
  obtain i1 i2 where pr: "pr = (i1, i2)" by (cases pr)
  from Cons.prems(1) pr obtain occ1 e1 occ2 e2 rest where
    g1: "py_get (seg_entities seg) (int i1) = Inr occ1"
    and e1: "get_entity db (eis_kind occ1) (eis_key occ1) = Inr e1"
    and g2: "py_get (seg_entities seg) (int i2) = Inr occ2"
    and e2: "get_entity db (eis_kind occ2) (eis_key occ2) = Inr e2"
    and rest: "pair_evidences db r seg ps = Inr rest"
    and evs: "evs = \<lparr>ev_fact = \<lparr>fact_e1 = e1, fact_relation = r, fact_e2 = e2\<rparr>,
                ev_segment = Some seg, ev_o1 = Some i1, ev_o2 = Some i2\<rparr> # rest"
    by (auto split: sum.splits)
  show ?case
  proof (cases "e \<in> set rest")
    case True
    with Cons.IH [OF rest] show ?thesis by simp
  next
    case False
    with Cons.prems(2) evs have e: "e = \<lparr>ev_fact = \<lparr>fact_e1 = e1, fact_relation = r, fact_e2 = e2\<rparr>,
                ev_segment = Some seg, ev_o1 = Some i1, ev_o2 = Some i2\<rparr>" by simp
    from py_get_nat_Inr [OF g1] get_entity_match [OF e1]
    have a: "i1 < length (seg_entities seg)" "is_entity (seg_entities seg ! i1) e1"
      by (simp_all add: is_entity_def)
    from py_get_nat_Inr [OF g2] get_entity_match [OF e2]
    have b: "i2 < length (seg_entities seg)" "is_entity (seg_entities seg ! i2) e2"
      by (simp_all add: is_entity_def)
    have "evidence_invariants e" unfolding e
      by (rule located_pair_invariants) (simp_all add: a b)
    moreover have "located e" by (simp add: e located_def)
    ultimately show ?thesis by simp
  qed
qed

lemma segment_evidences_member:
  "segment_evidences db r lkind rkind segs = Inr evs \<Longrightarrow> e \<in> set evs \<Longrightarrow>
     located e \<and> evidence_invariants e"
proof (induction segs arbitrary: evs)
  case Nil
  then show ?case by simp
next
  case (Cons seg segs)
  from Cons.prems(1) obtain here rest where
    h: "pair_evidences db r seg (kind_occurrence_pairs seg lkind rkind) = Inr here"
    and rest: "segment_evidences db r lkind rkind segs = Inr rest"
    and evs: "evs = here @ rest"
    by (auto split: sum.splits)
  from Cons.prems(2) evs have "e \<in> set here \<or> e \<in> set rest" by simp
  then show ?case
  proof
    assume "e \<in> set here"
    with h show ?thesis by (rule pair_evidences_member)
  next
    assume "e \<in> set rest"
    with rest show ?thesis by (rule Cons.IH)
  qed
qed

lemma extract_relations_member:
  "extract_relations db extractors rels result = Inr k \<Longrightarrow>
     (\<And>e. e \<in> fst ` set result \<Longrightarrow> located e \<and> evidence_invariants e) \<Longrightarrow>
     e \<in> fst ` set k \<Longrightarrow> located e \<and> evidence_invariants e"
proof (induction rels arbitrary: result)
  case Nil
  then show ?case by simp
next
  case (Cons rel rels)
  obtain r lkind rkind where rel: "rel = (r, (lkind, rkind))" by (cases rel) auto
  from Cons.prems(1) rel obtain evidence ps where
    se: "segment_evidences db r lkind rkind (segments_with_both_kinds db lkind rkind) = Inr evidence"
    and rest: "extract_relations db extractors rels (dict_update result (zip evidence ps)) = Inr k"
    by (auto split: sum.splits)
  have "\<And>x. x \<in> fst ` set (dict_update result (zip evidence ps)) \<Longrightarrow>
          located x \<and> evidence_invariants x"
  proof -
    fix x assume "x \<in> fst ` set (dict_update result (zip evidence ps))"
    then have "x \<in> fst ` set result \<or> x \<in> fst ` set (zip evidence ps)"
      by (simp add: dict_update_keys)
    then show "located x \<and> evidence_invariants x"
    proof
      assume "x \<in> fst ` set result"
      then show ?thesis by (rule Cons.prems(2))
    next
      assume "x \<in> fst ` set (zip evidence ps)"
      then have "x \<in> set evidence" by (auto dest: set_zip_leftD)
      with se show ?thesis by (rule segment_evidences_member)
    qed
  qed
  from Cons.IH [OF rest this Cons.prems(3)] show ?case .
qed

lemma extract_facts_member:
  "extract_facts p extractors = Inr k \<Longrightarrow> e \<in> fst ` set k \<Longrightarrow>
     located e \<and> evidence_invariants e"
  unfolding extract_facts_def by (erule extract_relations_member) simp_all

lemma extract_facts_ok: "extract_facts p extractors = Inr k \<Longrightarrow> knowledge_ok k"
  by (rule knowledge_okI) (simp add: extract_facts_member)

subsection \<open>The steps keep the invariant\<close>

lemma pipeline_ok_position [simp]: "pipeline_ok (p\<lparr>step_position := n\<rparr>) = pipeline_ok p"
  by (simp add: pipeline_ok_def)

lemma merge_facts_ok:
  "knowledge_ok kn \<Longrightarrow> knowledge_ok fs \<Longrightarrow> knowledge_ok (fst (merge_facts thr kn fs))"
proof (induction fs arbitrary: kn)
  case Nil
  then show ?case by simp
next
  case (Cons a fs)
  obtain e sc where a: "a = (e, sc)" by (cases a)
  from Cons.prems(2) a have e: "evidence_invariants e" and fs: "knowledge_ok fs"
    by (simp_all add: knowledge_ok_Cons)
  show ?case
  proof (cases sc)
    case None
    with a Cons.prems(1) show ?thesis by simp
  next
    case (Some x)
    show ?thesis
    proof (cases "thr < x")
      case True
      have "knowledge_ok (AList.update e sc kn)"
        using Cons.prems(1) e by (rule knowledge_ok_update)
      from Cons.IH [OF this fs] a Some True show ?thesis by simp
    next
      case False
      from Cons.IH [OF Cons.prems(1) fs] a Some False show ?thesis by simp
    qed
  qed
qed

lemma filter_facts_ok:
  "pipeline_ok p \<Longrightarrow> knowledge_ok facts \<Longrightarrow> pipeline_ok (fst (filter_facts p facts))"
  by (simp add: filter_facts_fst pipeline_ok_def merge_facts_ok)

lemma filter_facts_returns: "snd (filter_facts p facts) = Inr facts' \<Longrightarrow> facts' = facts"
  by (auto simp: filter_facts_snd split: option.splits)

lemma generalize_knowledge_ok: "knowledge_ok evidence \<Longrightarrow> knowledge_ok (generalize_knowledge p evidence)"
  unfolding generalize_knowledge_def by (intro knowledge_ok_dict_of knowledge_ok_filter)

lemma generate_questions_ok:
  "pipeline_ok p \<Longrightarrow> knowledge_ok evidence \<Longrightarrow> pipeline_ok (generate_questions p evidence)"
  by (simp add: generate_questions_def pipeline_ok_def knowledge_ok_dict_of knowledge_ok_filter)

lemma run_generate_questions_ok:
  "pipeline_ok p \<Longrightarrow> data_ok data \<Longrightarrow> pipeline_ok (fst (run_generate_questions p data))"
  by (cases data) (simp_all add: run_generate_questions_def data_ok_def generate_questions_ok)

lemma run_generalize_knowledge_ok:
  "pipeline_ok p \<Longrightarrow> data_ok data \<Longrightarrow> pipeline_ok (fst (run_generalize_knowledge p data))"
proof (cases data)
  case None
  assume "pipeline_ok p"
  with None show ?thesis by (simp add: run_generalize_knowledge_def)
next
  case (Some evidence)
  assume p: "pipeline_ok p" and "data_ok data"
  with Some have "knowledge_ok (generalize_knowledge p evidence)"
    by (simp add: data_ok_def generalize_knowledge_ok)
  then have "data_ok (Some (generalize_knowledge p evidence))" by (simp add: data_ok_def)
  with p have "pipeline_ok (fst (run_generate_questions p (Some (generalize_knowledge p evidence))))"
    by (rule run_generate_questions_ok)
  with Some show ?thesis by (simp add: run_generalize_knowledge_def)
qed

lemma run_filter_facts_ok:
  "pipeline_ok p \<Longrightarrow> data_ok data \<Longrightarrow> pipeline_ok (fst (run_filter_facts p data))"
proof (cases data)
  case None
  assume "pipeline_ok p"
  with None show ?thesis by (simp add: run_filter_facts_def)
next
  case (Some facts)
  assume p: "pipeline_ok p" and "data_ok data"
  with Some have f: "knowledge_ok facts" by (simp add: data_ok_def)
  obtain p' res where ff: "filter_facts p facts = (p', res)" by (cases "filter_facts p facts")
  from filter_facts_ok [OF p f] ff have p': "pipeline_ok p'" by simp
  show ?thesis
  proof (cases res)
    case (Inl err)
    with Some ff p' show ?thesis by (simp add: run_filter_facts_def)
  next
    case (Inr facts')
    with ff filter_facts_returns [of p facts facts'] have "facts' = facts" by simp
    with f have "data_ok (Some facts')" by (simp add: data_ok_def)
    with p' have "pipeline_ok (fst (run_generalize_knowledge p' (Some facts')))"
      by (rule run_generalize_knowledge_ok)
    with Some ff Inr show ?thesis by (simp add: run_filter_facts_def)
  qed
qed

lemma run_extract_facts_ok:
  "pipeline_ok p \<Longrightarrow> pipeline_ok (fst (run_extract_facts p extractors))"
proof (cases "extract_facts p extractors")
  case (Inl err)
  assume "pipeline_ok p"
  with Inl show ?thesis by (simp add: run_extract_facts_def)
next
  case (Inr facts)
  assume p: "pipeline_ok p"
  from Inr have "knowledge_ok facts" by (rule extract_facts_ok)
  then have "data_ok (Some facts)" by (simp add: data_ok_def)
  with p have "pipeline_ok (fst (run_filter_facts p (Some facts)))" by (rule run_filter_facts_ok)
  with Inr show ?thesis by (simp add: run_extract_facts_def)
qed

lemma run_learn_fact_extractors_ok:
  "pipeline_ok p \<Longrightarrow> pipeline_ok (fst (run_learn_fact_extractors factory p data))"
  by (auto simp: run_learn_fact_extractors_def run_extract_facts_ok split: option.splits sum.splits)

lemma run_filter_evidence_ok:
  "pipeline_ok p \<Longrightarrow> pipeline_ok (fst (run_filter_evidence factory p))"
  by (auto simp: run_filter_evidence_def run_learn_fact_extractors_ok split: sum.splits)

lemma do_iteration_ok:
  "pipeline_ok p \<Longrightarrow> data_ok data \<Longrightarrow> pipeline_ok (fst (do_iteration factory p data))"
  by (simp add: do_iteration_def run_generalize_knowledge_ok run_generate_questions_ok
        run_filter_evidence_ok run_learn_fact_extractors_ok run_extract_facts_ok
        run_filter_facts_ok)

lemma init_ok: "init db seed_facts = Inr p \<Longrightarrow> pipeline_ok p"
  by (auto simp: init_Inr pipeline_ok_def seed_knowledge_ok knowledge_ok_Nil)

lemma reachable_ok: "reachable factory p \<Longrightarrow> pipeline_ok p"
proof (induction rule: reachable.induct)
  case (constructed db seed_facts p)
  then show ?case by (rule init_ok)
next
  case (started p)
  have "data_ok (Some (start_evidences p))" by (simp add: data_ok_def start_evidences_ok)
  with started.IH show ?case unfolding start_def by (rule do_iteration_ok)
next
  case (answered p evidence answer)
  then show ?case by (simp add: add_answer_def pipeline_ok_def)
next
  case (processed p)
  have "data_ok None" by (simp add: data_ok_def)
  with processed.IH show ?case unfolding force_process_def by (rule do_iteration_ok)
qed

text \<open>
  Claim C5. In every pipeline that the API can produce, each evidence that is a
  key of the knowledge or of the pending questions satisfies the invariants of
  \<open>Evidence\<close>: the segment and the two indices are \<open>None\<close> together, and an index
  that is set points to an occurrence of the segment with the kind and key of
  the entity of the fact. The seed evidences have all three \<open>None\<close>; the
  evidences that \<open>start\<close> and \<open>extract_facts\<close> build have all three set and
  matching.
\<close>

theorem pipeline_evidence_invariants:
  "(reachable factory p \<longrightarrow>
      (\<forall>e \<in> fst ` set (knowledge p) \<union> fst ` set (questions p). evidence_invariants e)) \<and>
   (\<forall>e \<in> fst ` set (seed_knowledge seed_facts). unlocated e) \<and>
   (\<forall>e \<in> fst ` set (start_evidences q). located e \<and> evidence_invariants e) \<and>
   (\<forall>k. extract_facts q extractors = Inr k \<longrightarrow>
      (\<forall>e \<in> fst ` set k. located e \<and> evidence_invariants e))"
proof (intro conjI impI allI ballI)
  fix e assume "reachable factory p" and e: "e \<in> fst ` set (knowledge p) \<union> fst ` set (questions p)"
  then have "pipeline_ok p" by (simp add: reachable_ok)
  then have "knowledge_ok (knowledge p)" "knowledge_ok (questions p)"
    by (simp_all add: pipeline_ok_def)
  with e show "evidence_invariants e" by (blast dest: knowledge_okD)
next
  fix e assume "e \<in> fst ` set (seed_knowledge seed_facts)"
  then show "unlocated e" by (rule seed_knowledge_unlocated)
next
  fix e assume e: "e \<in> fst ` set (start_evidences q)"
  then show "located e" by (simp add: start_evidences_member)
  from e show "evidence_invariants e" by (simp add: start_evidences_member)
next
  fix k e assume k: "extract_facts q extractors = Inr k" and e: "e \<in> fst ` set k"
  then show "located e" by (simp add: extract_facts_member)
  from k e show "evidence_invariants e" by (simp add: extract_facts_member)
qed

lemma sample_pipeline_constructed: "init sample_db [works_for] = Inr sample_pipeline"
  by (simp add: init_def sample_pipeline_def seed_knowledge_def dict_of_def dict_update_def
        works_for_def person_x_def org_y_def Let_def)

lemma sample_start_evidences:
  "start_evidences sample_pipeline = [(sample_question, Some (1 / 2))]"
  by (simp add: start_evidences_def sample_pipeline_def seed_knowledge_def dict_of_def
        dict_update_def sample_db_def segments_with_both_entities_def sample_segment_def
        entity_occurrence_pairs_def is_entity_def works_for_def person_x_def org_y_def
        sample_question_def Let_def enumerate_eq_zip upt_rec)

lemma sample_questions:
  "questions (fst (start sample_factory sample_pipeline)) = [(sample_question, Some (1 / 2))]"
  by (simp add: start_def do_iteration_def sample_start_evidences run_generalize_knowledge_def
        run_generate_questions_def generalize_knowledge_def generate_questions_def dict_of_def
        dict_update_def)
     (simp add: sample_pipeline_def seed_knowledge_def dict_of_def dict_update_def
        sample_question_def)

theorem pipeline_evidence_invariants_witness:
  "reachable sample_factory (fst (start sample_factory sample_pipeline)) \<and>
   sample_question \<in> fst ` set (questions (fst (start sample_factory sample_pipeline))) \<and>
   evidence_invariants sample_question \<and>
   sample_question \<in> fst ` set (start_evidences sample_pipeline) \<and>
   located sample_question"
proof -
  have r: "reachable sample_factory (fst (start sample_factory sample_pipeline))"
    by (rule reachable.started [OF reachable.constructed [OF sample_pipeline_constructed]])
  have m: "sample_question \<in> fst ` set (questions (fst (start sample_factory sample_pipeline)))"
    by (simp add: sample_questions)
  have s: "sample_question \<in> fst ` set (start_evidences sample_pipeline)"
    by (simp add: sample_start_evidences)
  note t = pipeline_evidence_invariants [of sample_factory
      "fst (start sample_factory sample_pipeline)" "[works_for]" sample_pipeline NoneArg]
  from t r m have i: "evidence_invariants sample_question" by blast
  from t s have l: "located sample_question" by blast
  from r m i s l show ?thesis by blast
qed

end
